theory Spec2Isabelle
  imports Complex_Main "HOL-Library.Word"
begin

section \<open>Values shared by the exported operations\<close>

text \<open>
  The library \<^verbatim>\<open>dllmain.cpp\<close> exports four C functions over a bundle of module-wide
  variables. The inference runtime (\<^verbatim>\<open>ov::Core\<close> and the objects it hands out) and the
  image library are external: the runtime is a record of the answers it gives during one
  call, and every theorem holds for all such records.
\<close>

type_synonym uchar = "8 word"

text \<open>What a C++ \<^verbatim>\<open>throw\<close> carries; the code only ever uses \<^verbatim>\<open>catch (...)\<close>.\<close>

datatype exn = Exception string

text \<open>
  How a call of an exported function ends: it returns, an exception leaves the function
  uncaught, or the call has undefined behaviour in C++ (an index or pointer out of range,
  signed overflow). The model follows the globals through calls that return, and says
  nothing of what holds after the other two.
\<close>

datatype 'a outcome = Returned 'a | Propagated exn | Undefined

fun returned_value :: "('a \<times> 'b) outcome \<Rightarrow> 'a option" where
  "returned_value (Returned (v, _)) = Some v"
| "returned_value _ = None"

text \<open>
  The conversion from \<^verbatim>\<open>size_t\<close> to \<^verbatim>\<open>int\<close> (32 bits, two's complement) that the
  assignments \<^verbatim>\<open>num_classes = ...get_shape()[1]\<close>, \<^verbatim>\<open>input_w = ...\<close> and the
  \<^verbatim>\<open>return available_devices.size()\<close> perform.
\<close>

definition int_of_size_t :: "nat \<Rightarrow> int" where
  "int_of_size_t n = sint (word_of_nat n :: 32 word)"

definition INT_MAX :: int where
  "INT_MAX = 2147483647"

definition fits_int :: "int \<Rightarrow> bool" where
  "fits_int i \<longleftrightarrow> - INT_MAX - 1 \<le> i \<and> i \<le> INT_MAX"

subsection \<open>float\<close>

text \<open>
  A binary32 value: a finite number (kept as the exact rational it denotes), an infinity
  or a NaN. \<open>f32_less\<close> is \<^verbatim>\<open>operator<\<close>: false whenever an operand is NaN.
\<close>

datatype f32 = Finite rat | PosInf | NegInf | NaN

fun f32_less :: "f32 \<Rightarrow> f32 \<Rightarrow> bool" where
  "f32_less NaN _ = False"
| "f32_less _ NaN = False"
| "f32_less (Finite a) (Finite b) = (a < b)"
| "f32_less _ NegInf = False"
| "f32_less NegInf _ = True"
| "f32_less PosInf _ = False"
| "f32_less _ PosInf = True"

text \<open>Rounding to the nearest integer, ties to even: the IEEE 754 default.\<close>

definition round_half_even :: "rat \<Rightarrow> int" where
  "round_half_even q =
     (let f = \<lfloor>q\<rfloor>; d = q - of_int f in
      if d < 1 / 2 then f
      else if 1 / 2 < d then f + 1
      else if even f then f else f + 1)"

text \<open>
  \<open>norm_shift n x\<close> counts the doublings (at most \<open>n\<close>) that bring \<open>x\<close> up to
  \<open>2 ^ 23\<close>, so that \<open>x * 2 ^ k\<close> has a 24-bit integer part. \<open>f32_round x\<close> is the binary32
  nearest to a rational \<open>0 \<le> x < 2 ^ 24\<close>; the cap of 149 doublings is the subnormal
  grid.
\<close>

fun norm_shift :: "nat \<Rightarrow> rat \<Rightarrow> nat" where
  "norm_shift 0 x = 0"
| "norm_shift (Suc n) x = (if x < 2 ^ 23 then Suc (norm_shift n (2 * x)) else 0)"

definition f32_round :: "rat \<Rightarrow> rat" where
  "f32_round x =
     (if x \<le> 0 then 0
      else let k = norm_shift 149 x in of_int (round_half_even (x * 2 ^ k)) / 2 ^ k)"

text \<open>
  \<^verbatim>\<open>texture.data[...] / 255.0f\<close>: the byte is promoted to \<^verbatim>\<open>int\<close> and converted to
  \<^verbatim>\<open>float\<close> (exactly), \<^verbatim>\<open>255.0f\<close> is exact, and the division returns the binary32
  nearest to the exact quotient.
\<close>

definition uchar_div_255 :: "uchar \<Rightarrow> f32" where
  "uchar_div_255 b = Finite (f32_round (of_nat (unat b) / 255))"

subsection \<open>Tensors and their storage\<close>

text \<open>
  Tensor storage lives in memory owned by the runtime: a store from addresses to float
  buffers. An \<^verbatim>\<open>ov::Tensor\<close> handle is what the code observes of it: its shape, and
  what \<^verbatim>\<open>data<float>()\<close> gives (the address of its storage, or an exception when the
  element type is not float).
\<close>

type_synonym heap = "nat \<Rightarrow> f32 list option"

record tensor =
  get_shape :: "nat list"
  data_float :: "exn + nat"

text \<open>\<^verbatim>\<open>ptr[i] = v\<close>: undefined (\<open>None\<close>) outside the storage.\<close>

definition store :: "heap \<Rightarrow> nat \<Rightarrow> nat \<Rightarrow> f32 \<Rightarrow> heap option" where
  "store h a i v =
     (case h a of
        None \<Rightarrow> None
      | Some buf \<Rightarrow> if i < length buf then Some (h(a \<mapsto> buf[i := v])) else None)"

text \<open>The range \<^verbatim>\<open>[ptr, ptr + n)\<close> read as floats; an empty range reads nothing.\<close>

definition read_floats :: "heap \<Rightarrow> nat \<Rightarrow> int \<Rightarrow> f32 list option" where
  "read_floats h a n =
     (if n < 0 then None
      else if n = 0 then Some []
      else case h a of
             None \<Rightarrow> None
           | Some buf \<Rightarrow> if nat n \<le> length buf then Some (take (nat n) buf) else None)"

subsection \<open>The inference runtime\<close>

text \<open>
  The answers of \<^verbatim>\<open>ov::Core\<close>, \<^verbatim>\<open>ov::Model\<close>, \<^verbatim>\<open>ov::CompiledModel\<close> and
  \<^verbatim>\<open>ov::InferRequest\<close>, one field per call the source makes. \<open>'m\<close>, \<open>'c\<close> and \<open>'r\<close> are
  the runtime's models, compiled models and infer requests. Every call may throw.
  \<^item> \<open>reshape\<close> gives the reshaped model; when it throws the model keeps its shape.
  \<^item> \<open>compile_model m facade dev\<close> stands for \<^verbatim>\<open>compile_model(m, facade,
    priorities(dev), LATENCY, f32)\<close>.
  \<^item> \<open>output_shape c\<close> is \<^verbatim>\<open>c.output().get_shape()\<close>.
  \<^item> \<open>infer r h\<close> is the forward pass of request \<open>r\<close> on memory \<open>h\<close>: it may throw,
    and leaves the memory it gives back.
  \<^item> \<open>get_output_tensor r h\<close> is the output tensor of \<open>r\<close> once the pass left \<open>h\<close>.
\<close>

record ('m, 'c, 'r) core =
  get_available_devices :: "exn + string list"
  set_property :: "string \<Rightarrow> string \<Rightarrow> exn option"
  read_model :: "string \<Rightarrow> exn + 'm"
  reshape :: "'m \<Rightarrow> int list \<Rightarrow> exn + 'm"
  compile_model :: "'m \<Rightarrow> string \<Rightarrow> string \<Rightarrow> exn + 'c"
  output_shape :: "'c \<Rightarrow> exn + nat list"
  create_infer_request :: "'c \<Rightarrow> exn + 'r"
  get_input_tensor :: "'r \<Rightarrow> nat \<Rightarrow> exn + tensor"
  infer :: "'r \<Rightarrow> heap \<Rightarrow> exn option \<times> heap"
  get_output_tensor :: "'r \<Rightarrow> heap \<Rightarrow> exn + tensor"

subsection \<open>Module-wide variables\<close>

text \<open>
  The globals of lines 13 to 35. A default-constructed handle is \<open>None\<close>;
  \<open>input_data\<close> is an address. The global \<open>compiled_model\<close> is never assigned:
  \<^verbatim>\<open>LoadModel\<close> declares a local of the same name.
\<close>

record ('m, 'c, 'r) globals =
  model :: "'m option"
  compiled_model :: "'c option"
  available_devices :: "string list"
  infer_request :: "'r option"
  input_tensor :: "tensor option"
  input_data :: nat
  num_classes :: int
  input_w :: int
  input_h :: int
  nPixels :: int
  num_channels :: int

definition initial_globals :: "('m, 'c, 'r) globals" where
  "initial_globals =
     \<lparr>model = None, compiled_model = None, available_devices = [],
      infer_request = None, input_tensor = None, input_data = 0,
      num_classes = 0, input_w = 0, input_h = 0, nPixels = 0, num_channels = 3\<rparr>"

section \<open>GetDeviceCount and GetDeviceName\<close>

fun is_prefix :: "string \<Rightarrow> string \<Rightarrow> bool" where
  "is_prefix [] s = True"
| "is_prefix (c # cs) [] = False"
| "is_prefix (c # cs) (d # ds) = (c = d \<and> is_prefix cs ds)"

text \<open>\<^verbatim>\<open>s.find(pat)\<close>: the first position where \<open>pat\<close> occurs, \<open>None\<close> for \<^verbatim>\<open>npos\<close>.\<close>

fun str_find :: "string \<Rightarrow> string \<Rightarrow> nat option" where
  "str_find [] pat = (if is_prefix pat [] then Some 0 else None)"
| "str_find (c # s) pat =
     (if is_prefix pat (c # s) then Some 0 else map_option Suc (str_find s pat))"

text \<open>The loop of lines 47 to 52 over the runtime's devices, appending to the list.\<close>

fun device_loop :: "string list \<Rightarrow> string list \<Rightarrow> string list" where
  "device_loop [] acc = acc"
| "device_loop (device # rest) acc =
     device_loop rest (if str_find device ''GNA'' = None then acc @ [device] else acc)"

definition GetDeviceCount ::
  "('m, 'c, 'r) core \<Rightarrow> ('m, 'c, 'r) globals \<Rightarrow> (int \<times> ('m, 'c, 'r) globals) outcome" where
  "GetDeviceCount rt s =
     (case get_available_devices rt of
        Inl e \<Rightarrow> Propagated e
      | Inr devices \<Rightarrow>
          let s' = s\<lparr>available_devices := device_loop devices []\<rparr>
          in Returned (int_of_size_t (length (available_devices s')), s'))"

text \<open>
  \<^verbatim>\<open>&available_devices[index]\<close>: the string at \<open>index\<close>; \<^verbatim>\<open>operator[]\<close> does not
  check the range.
\<close>

definition GetDeviceName :: "('m, 'c, 'r) globals \<Rightarrow> int \<Rightarrow> string outcome" where
  "GetDeviceName s index =
     (if 0 \<le> index \<and> nat index < length (available_devices s)
      then Returned (available_devices s ! nat index)
      else Undefined)"

section \<open>LoadModel\<close>

text \<open>
  Lines 91 to 112, on the model \<open>m\<close> that lines 82 to 89 left: compile it for the
  device at \<open>index\<close>, then assign \<open>num_classes\<close>, \<open>infer_request\<close>, \<open>input_tensor\<close>,
  the three cached dimensions and \<open>input_data\<close>, in the order of the source. None of
  these calls stands in a \<^verbatim>\<open>try\<close> block. \<^verbatim>\<open>operator[]\<close> on the device list and on
  a shape does not check its index, and \<^verbatim>\<open>input_w * input_h\<close> is a signed product.
\<close>

definition compile_and_bind ::
  "('m, 'c, 'r) core \<Rightarrow> ('m, 'c, 'r) globals \<Rightarrow> 'm \<Rightarrow> int \<Rightarrow> ('m, 'c, 'r) globals outcome" where
  "compile_and_bind rt s m index =
     (if index < 0 \<or> length (available_devices s) \<le> nat index then Undefined
      else
     (case compile_model rt m ''MULTI'' (available_devices s ! nat index) of
        Inl e \<Rightarrow> Propagated e
      | Inr cm \<Rightarrow>
     (case output_shape rt cm of
        Inl e \<Rightarrow> Propagated e
      | Inr oshape \<Rightarrow>
      if length oshape < 2 then Undefined
      else
     (let s2 = s\<lparr>num_classes := int_of_size_t (oshape ! 1)\<rparr> in
      case create_infer_request rt cm of
        Inl e \<Rightarrow> Propagated e
      | Inr r \<Rightarrow>
     (let s3 = s2\<lparr>infer_request := Some r\<rparr> in
      case get_input_tensor rt r 0 of
        Inl e \<Rightarrow> Propagated e
      | Inr t \<Rightarrow>
     (let s4 = s3\<lparr>input_tensor := Some t\<rparr> in
      if length (get_shape t) < 4 then Undefined
      else
     (let w = int_of_size_t (get_shape t ! 3);
          h = int_of_size_t (get_shape t ! 2) in
      if \<not> fits_int (w * h) then Undefined
      else
     (let s5 = s4\<lparr>input_w := w, input_h := h, nPixels := w * h\<rparr> in
      case data_float t of
        Inl e \<Rightarrow> Propagated e
      | Inr p \<Rightarrow> Returned (s5\<lparr>input_data := p\<rparr>)))))))))"

text \<open>
  Lines 74 to 116. \<open>inputDims\<close> is the two-element array as a pair:
  \<open>fst\<close> is \<^verbatim>\<open>inputDims[0]\<close> (the width), \<open>snd\<close> is \<^verbatim>\<open>inputDims[1]\<close>. Only the two
  \<^verbatim>\<open>try\<close> blocks catch: a failure of \<^verbatim>\<open>read_model\<close> returns 1 before \<open>model\<close> is
  assigned, a failure of \<^verbatim>\<open>reshape\<close> sets the return value to 2 and leaves the model
  as it was read.
\<close>

definition LoadModel ::
  "('m, 'c, 'r) core \<Rightarrow> ('m, 'c, 'r) globals \<Rightarrow> string \<Rightarrow> int \<Rightarrow> int \<times> int
     \<Rightarrow> (int \<times> ('m, 'c, 'r) globals) outcome" where
  "LoadModel rt s modelPath index inputDims =
     (case set_property rt ''GPU'' ''cache'' of
        Some e \<Rightarrow> Propagated e
      | None \<Rightarrow>
     (case read_model rt modelPath of
        Inl e \<Rightarrow> Returned (1, s)
      | Inr m \<Rightarrow>
     (case (case reshape rt m [1, 3, snd inputDims, fst inputDims] of
              Inl e \<Rightarrow> (2, m)
            | Inr m' \<Rightarrow> (0, m')) of
        (return_val, m') \<Rightarrow>
     (case compile_and_bind rt (s\<lparr>model := Some m'\<rparr>) m' index of
        Undefined \<Rightarrow> Undefined
      | Propagated e \<Rightarrow> Propagated e
      | Returned s' \<Rightarrow> Returned (return_val, s')))))"

section \<open>PerformInference\<close>

text \<open>
  \<^verbatim>\<open>cv::cvtColor(texture, texture, cv::COLOR_RGBA2RGB)\<close> on the bytes of the frame: each
  group of four bytes loses its fourth.
\<close>

fun rgba2rgb :: "uchar list \<Rightarrow> uchar list" where
  "rgba2rgb (r # g # b # a # rest) = r # g # b # rgba2rgb rest"
| "rgba2rgb _ = []"

text \<open>
  Lines 131 and 133: the frame is wrapped as a \<open>rows \<times> cols\<close> image of four bytes per
  pixel and converted into a fresh three-channel image. The image library rejects an
  empty source with an exception; a frame shorter than \<open>rows * cols * 4\<close> bytes is read
  past its end, and negative dimensions are left undefined.
\<close>

definition cvtColor_RGBA2RGB :: "int \<Rightarrow> int \<Rightarrow> uchar list \<Rightarrow> uchar list outcome" where
  "cvtColor_RGBA2RGB rows cols inputData =
     (if rows < 0 \<or> cols < 0 then Undefined
      else if rows = 0 \<or> cols = 0 then Propagated (Exception ''cvtColor: empty source'')
      else if length inputData < nat (rows * cols * 4) then Undefined
      else Returned (rgba2rgb (take (nat (rows * cols * 4)) inputData)))"

text \<open>
  The inner loop of lines 138 to 140 for pixel \<open>p\<close>, from channel \<open>ch\<close> on. The indices
  are computed in \<^verbatim>\<open>int\<close>; an index out of the texture or out of the storage at
  address \<open>a\<close> is undefined behaviour (\<open>None\<close>).
\<close>

function channel_loop ::
  "int \<Rightarrow> int \<Rightarrow> nat \<Rightarrow> uchar list \<Rightarrow> nat \<Rightarrow> nat \<Rightarrow> heap \<Rightarrow> heap option" where
  "channel_loop npx nch a tex p ch h =
     (if int ch < nch then
        (let i = int ch * npx + int p; j = int p * nch + int ch in
         if 0 \<le> i \<and> i \<le> INT_MAX \<and> j \<le> INT_MAX \<and> nat j < length tex then
           (case store h a (nat i) (uchar_div_255 (tex ! nat j)) of
              None \<Rightarrow> None
            | Some h' \<Rightarrow> channel_loop npx nch a tex p (Suc ch) h')
         else None)
      else Some h)"
  by pat_completeness auto
termination
  by (relation "measure (\<lambda>(npx, nch, a, tex, p, ch, h). nat nch - ch)") auto

text \<open>The outer loop of lines 136 to 141, from pixel \<open>p\<close> on.\<close>

function pixel_loop ::
  "int \<Rightarrow> int \<Rightarrow> nat \<Rightarrow> uchar list \<Rightarrow> nat \<Rightarrow> heap \<Rightarrow> heap option" where
  "pixel_loop npx nch a tex p h =
     (if int p < npx then
        (case channel_loop npx nch a tex p 0 h of
           None \<Rightarrow> None
         | Some h' \<Rightarrow> pixel_loop npx nch a tex (Suc p) h')
      else Some h)"
  by pat_completeness auto
termination
  by (relation "measure (\<lambda>(npx, nch, a, tex, p, h). nat npx - p)") auto

text \<open>Lines 131 to 141: the memory once the frame is written into the input storage.\<close>

definition preprocess ::
  "('m, 'c, 'r) globals \<Rightarrow> heap \<Rightarrow> uchar list \<Rightarrow> heap outcome" where
  "preprocess s h inputData =
     (case cvtColor_RGBA2RGB (input_h s) (input_w s) inputData of
        Undefined \<Rightarrow> Undefined
      | Propagated e \<Rightarrow> Propagated e
      | Returned texture \<Rightarrow>
          (case pixel_loop (nPixels s) (num_channels s) (input_data s) texture 0 h of
             None \<Rightarrow> Undefined
           | Some h' \<Rightarrow> Returned h'))"

text \<open>
  \<^verbatim>\<open>std::max_element\<close> over a range, as the position of its result: the first
  element stays the largest until a later one is greater under \<^verbatim>\<open>operator<\<close>; on an
  empty range the result is the end of the range, at distance 0 from its start.
\<close>

fun max_element_from :: "f32 \<Rightarrow> nat \<Rightarrow> nat \<Rightarrow> f32 list \<Rightarrow> nat" where
  "max_element_from largest li i [] = li"
| "max_element_from largest li i (x # xs) =
     (if f32_less largest x then max_element_from x i (Suc i) xs
      else max_element_from largest li (Suc i) xs)"

definition max_element :: "f32 list \<Rightarrow> nat" where
  "max_element xs = (case xs of [] \<Rightarrow> 0 | x # rest \<Rightarrow> max_element_from x 0 1 rest)"

text \<open>
  Lines 143 to 152, run on the memory \<open>h1\<close> that preprocessing left. Calling
  \<^verbatim>\<open>infer\<close> on a default-constructed request throws. The result is the class index
  or the caught exception, with the memory at that point.
\<close>

definition forward_and_argmax ::
  "('m, 'c, 'r) core \<Rightarrow> ('m, 'c, 'r) globals \<Rightarrow> heap \<Rightarrow> ((exn + int) \<times> heap) option" where
  "forward_and_argmax rt s h1 =
     (case infer_request s of
        None \<Rightarrow> Some (Inl (Exception ''InferRequest was not initialized''), h1)
      | Some r \<Rightarrow>
     (case infer rt r h1 of
        (Some e, h2) \<Rightarrow> Some (Inl e, h2)
      | (None, h2) \<Rightarrow>
     (case get_output_tensor rt r h2 of
        Inl e \<Rightarrow> Some (Inl e, h2)
      | Inr output_tensor \<Rightarrow>
     (case data_float output_tensor of
        Inl e \<Rightarrow> Some (Inl e, h2)
      | Inr out_data \<Rightarrow>
     (case read_floats h2 out_data (num_classes s) of
        None \<Rightarrow> None
      | Some logits \<Rightarrow> Some (Inr (int (max_element logits)), h2))))))"

text \<open>
  Lines 123 to 160. \<open>class_idx\<close> starts at \<open>-1\<close>; the \<^verbatim>\<open>try\<close> block ends by assigning
  it the position of the maximum, the \<^verbatim>\<open>catch (...)\<close> assigns \<open>-2\<close>. No global is
  assigned. The result carries the globals and the memory after the call.
\<close>

definition PerformInference ::
  "('m, 'c, 'r) core \<Rightarrow> ('m, 'c, 'r) globals \<Rightarrow> heap \<Rightarrow> uchar list
     \<Rightarrow> (int \<times> ('m, 'c, 'r) globals \<times> heap) outcome" where
  "PerformInference rt s h inputData =
     (let class_idx = (- 1 :: int) in
      case preprocess s h inputData of
        Undefined \<Rightarrow> Undefined
      | Propagated e \<Rightarrow> Returned (- 2, s, h)
      | Returned h1 \<Rightarrow>
          (case forward_and_argmax rt s h1 of
             None \<Rightarrow> Undefined
           | Some (Inl e, h2) \<Rightarrow> Returned (- 2, s, h2)
           | Some (Inr idx, h2) \<Rightarrow> Returned (idx, s, h2)))"

section \<open>A stub runtime\<close>

text \<open>
  A test double for the runtime: three devices, of which one is the filtered accelerator;
  \<^verbatim>\<open>model.xml\<close> parses and accepts a reshape, \<^verbatim>\<open>fixed.xml\<close> parses and refuses it,
  any other path fails to parse; the input tensor has shape \<open>[1, 3, 1, 2]\<close> with
  storage at address 100; the forward pass leaves the logits \<open>[0.5, 0.5, 0.5]\<close> at
  address 200.
\<close>

definition stub_core :: "(nat, nat, nat) core" where
  "stub_core =
     \<lparr>get_available_devices = Inr [''CPU'', ''GNA'', ''GPU.0''],
      set_property = (\<lambda>device property. None),
      read_model = (\<lambda>path. if path = ''model.xml'' then Inr 0
                           else if path = ''fixed.xml'' then Inr 1
                           else Inl (Exception ''read_model'')),
      reshape = (\<lambda>m shape. if m = 0 then Inr 2 else Inl (Exception ''reshape'')),
      compile_model = (\<lambda>m facade device. Inr m),
      output_shape = (\<lambda>c. Inr [1, 3]),
      create_infer_request = (\<lambda>c. Inr c),
      get_input_tensor = (\<lambda>r i. Inr \<lparr>get_shape = [1, 3, 1, 2], data_float = Inr 100\<rparr>),
      infer = (\<lambda>r h. (None, h(200 \<mapsto> [Finite (1 / 2), Finite (1 / 2), Finite (1 / 2)]))),
      get_output_tensor = (\<lambda>r h. Inr \<lparr>get_shape = [1, 3], data_float = Inr 200\<rparr>)\<rparr>"


text \<open>The globals once the devices are enumerated, and once a model is loaded.\<close>

definition enumerated_globals :: "(nat, nat, nat) globals" where
  "enumerated_globals = initial_globals\<lparr>available_devices := [''CPU'', ''GPU.0'']\<rparr>"

definition loaded_globals :: "nat \<Rightarrow> (nat, nat, nat) globals" where
  "loaded_globals m =
     \<lparr>model = Some m, compiled_model = None, available_devices = [''CPU'', ''GPU.0''],
      infer_request = Some m,
      input_tensor = Some \<lparr>get_shape = [1, 3, 1, 2], data_float = Inr 100\<rparr>,
      input_data = 100, num_classes = 3, input_w = 2, input_h = 1, nPixels = 2,
      num_channels = 3\<rparr>"

text \<open>The same runtime with a forward pass that throws.\<close>

definition infer_failing_core :: "(nat, nat, nat) core" where
  "infer_failing_core = stub_core\<lparr>infer := (\<lambda>r h. (Some (Exception ''infer''), h))\<rparr>"



text \<open>The same runtime with a forward pass that leaves the logits \<open>[0.25, 0.75, 0.5]\<close>.\<close>

definition peaked_core :: "(nat, nat, nat) core" where
  "peaked_core =
     stub_core\<lparr>infer := (\<lambda>r h. (None, h(200 \<mapsto> [Finite (1 / 4), Finite (3 / 4), Finite (1 / 2)])))\<rparr>"

text \<open>
  The same runtime listing a device with an empty name, and the globals that enumerating
  its devices leaves.
\<close>

definition empty_name_core :: "(nat, nat, nat) core" where
  "empty_name_core = stub_core\<lparr>get_available_devices := Inr ['''', ''CPU'']\<rparr>"

definition empty_name_globals :: "(nat, nat, nat) globals" where
  "empty_name_globals = initial_globals\<lparr>available_devices := ['''', ''CPU'']\<rparr>"

text \<open>
  Memory with six floats of input storage at address 100, and a frame of two pixels.
\<close>

definition stub_heap :: heap where
  "stub_heap = Map.empty(100 \<mapsto> replicate 6 (Finite 0))"

definition stub_frame :: "uchar list" where
  "stub_frame = [255, 0, 128, 9, 1, 2, 3, 4]"

text \<open>A frame of two pixels of the colour \<open>(7, 7, 7)\<close>, with different alpha.\<close>

definition solid_frame :: "uchar list" where
  "solid_frame = [7, 7, 7, 0, 7, 7, 7, 255]"

section \<open>Facts about the helpers\<close>

lemma is_prefix_iff: "is_prefix pat s \<longleftrightarrow> (\<exists>v. s = pat @ v)"
  by (induction pat s rule: is_prefix.induct) auto

lemma str_find_None_iff: "str_find s pat = None \<longleftrightarrow> \<not> (\<exists>u v. s = u @ pat @ v)"
proof (induction s)
  case Nil
  then show ?case by (auto simp: is_prefix_iff)
next
  case (Cons c s)
  show ?case
  proof (cases "is_prefix pat (c # s)")
    case True
    then obtain v where "c # s = [] @ pat @ v" by (auto simp: is_prefix_iff)
    with True show ?thesis by (metis option.distinct(1) str_find.simps(2))
  next
    case False
    have "(\<exists>u v. c # s = u @ pat @ v) \<longleftrightarrow> (\<exists>u v. s = u @ pat @ v)"
    proof
      assume "\<exists>u v. c # s = u @ pat @ v"
      then obtain u v where uv: "c # s = u @ pat @ v" by blast
      show "\<exists>u v. s = u @ pat @ v"
      proof (cases u)
        case Nil
        with uv False show ?thesis by (simp add: is_prefix_iff)
      next
        case (Cons a u')
        with uv have "s = u' @ pat @ v" by simp
        then show ?thesis by blast
      qed
    next
      assume "\<exists>u v. s = u @ pat @ v"
      then obtain u v where "s = u @ pat @ v" by blast
      then have "c # s = (c # u) @ pat @ v" by simp
      then show "\<exists>u v. c # s = u @ pat @ v" by blast
    qed
    with False Cons show ?thesis by simp
  qed
qed

lemma device_loop_filter:
  "device_loop devices acc = acc @ filter (\<lambda>d. str_find d ''GNA'' = None) devices"
  by (induction devices arbitrary: acc) auto

lemma int_of_size_t_eq: "int_of_size_t n = signed_take_bit 31 (int n)"
  by (simp add: int_of_size_t_def signed_of_nat)

lemma int_of_size_t_small:
  assumes "n < 2 ^ 31"
  shows "int_of_size_t n = int n"
proof -
  from assms have "int n < int (2 ^ 31)"
    by (simp only: of_nat_less_iff)
  then have "int n < 2 ^ 31"
    by (simp only: of_nat_power of_nat_numeral)
  moreover have "- (2 ^ 31) \<le> int n"
    by (rule order_trans [of _ 0]) simp_all
  ultimately show ?thesis
    unfolding int_of_size_t_eq by (rule signed_take_bit_int_eq_self [rotated])
qed

lemma int_of_size_t_values:
  "int_of_size_t 0 = 0" "int_of_size_t (Suc 0) = 1" "int_of_size_t (Suc (Suc 0)) = 2"
  "int_of_size_t 1 = 1" "int_of_size_t 2 = 2" "int_of_size_t 3 = 3"
  using int_of_size_t_small [of 0] int_of_size_t_small [of "Suc 0"]
    int_of_size_t_small [of "Suc (Suc 0)"] int_of_size_t_small [of 2]
    int_of_size_t_small [of 3]
  by simp_all

lemma int_of_size_t_le: "int_of_size_t n \<le> int n"
  unfolding int_of_size_t_eq by (simp add: signed_take_bit_int_less_eq_self_iff)

lemma int_of_size_t_fits: "fits_int (int_of_size_t n)"
  unfolding int_of_size_t_eq fits_int_def INT_MAX_def 
  using signed_take_bit_int_less_exp [of 31 "int n"] signed_take_bit_int_greater_eq_minus_exp [of 31 "int n"]
  by simp

subsection \<open>float\<close>

lemma round_half_even_error: "\<bar>of_int (round_half_even q) - q\<bar> \<le> 1 / 2"
proof -
  define d where "d = q - of_int \<lfloor>q\<rfloor>"
  have d: "0 \<le> d" "d < 1" unfolding d_def by linarith+
  consider "d < 1 / 2" | "1 / 2 < d" | "d = 1 / 2" by linarith
  then show ?thesis
  proof cases
    case 1
    then have r: "round_half_even q = \<lfloor>q\<rfloor>"
      by (simp add: round_half_even_def Let_def d_def)
    show ?thesis unfolding r using 1 d unfolding d_def by linarith
  next
    case 2
    then have r: "of_int (round_half_even q) = of_int \<lfloor>q\<rfloor> + (1 :: rat)"
      by (simp add: round_half_even_def Let_def d_def)
    show ?thesis unfolding r using 2 d unfolding d_def by linarith
  next
    case 3
    then have "of_int (round_half_even q) = (of_int \<lfloor>q\<rfloor> :: rat)
        \<or> of_int (round_half_even q) = of_int \<lfloor>q\<rfloor> + (1 :: rat)"
      by (simp add: round_half_even_def Let_def d_def)
    then show ?thesis
    proof
      assume r: "of_int (round_half_even q) = (of_int \<lfloor>q\<rfloor> :: rat)"
      show ?thesis unfolding r using 3 unfolding d_def by linarith
    next
      assume r: "of_int (round_half_even q) = of_int \<lfloor>q\<rfloor> + (1 :: rat)"
      show ?thesis unfolding r using 3 unfolding d_def by linarith
    qed
  qed
qed

lemma round_half_even_nonneg: "0 \<le> q \<Longrightarrow> 0 \<le> round_half_even q"
  by (auto simp: round_half_even_def Let_def)

lemma round_half_even_le:
  assumes "q \<le> of_int n"
  shows "round_half_even q \<le> n"
proof -
  have fl: "\<lfloor>q\<rfloor> \<le> n" using assms by (simp add: floor_le_iff)
  show ?thesis
  proof (cases "\<lfloor>q\<rfloor> = n")
    case True
    then have "q - of_int \<lfloor>q\<rfloor> \<le> 0" using assms by simp
    then show ?thesis using True by (simp add: round_half_even_def Let_def)
  next
    case False
    with fl have "\<lfloor>q\<rfloor> + 1 \<le> n" by simp
    with fl show ?thesis by (simp add: round_half_even_def Let_def)
  qed
qed

lemma norm_shift_ge:
  "x * 2 ^ j < 2 ^ 24 \<Longrightarrow> j \<le> n \<Longrightarrow> j \<le> norm_shift n x"
proof (induction n x arbitrary: j rule: norm_shift.induct)
  case (1 x)
  then show ?case by simp
next
  case (2 n x)
  show ?case
  proof (cases j)
    case 0
    then show ?thesis by simp
  next
    case (Suc j')
    with 2(2) have a: "(2 * x) * 2 ^ j' < 2 ^ 24" by (simp add: mult_ac)
    have "(1::rat) \<le> 2 ^ j'" by simp
    then have "2 * x * 1 \<le> (2 * x) * 2 ^ j' \<or> x < 0"
      by (metis mult_left_mono not_le_imp_less mult_nonneg_nonneg zero_le_numeral)
    with a have "x < 2 ^ 23" by auto
    moreover have "j' \<le> norm_shift n (2 * x)"
      using "2.IH" [of j'] a \<open>x < 2 ^ 23\<close> 2(3) Suc by simp
    ultimately show ?thesis using Suc by simp
  qed
qed

lemma f32_round_range:
  assumes "0 \<le> x" "x \<le> 1"
  shows "0 \<le> f32_round x \<and> f32_round x \<le> 1"
proof (cases "x \<le> 0")
  case True
  then show ?thesis by (simp add: f32_round_def)
next
  case False
  let ?k = "norm_shift 149 x"
  have eq: "f32_round x = of_int (round_half_even (x * 2 ^ ?k)) / 2 ^ ?k"
    using False by (simp add: f32_round_def Let_def)
  have "0 \<le> x * 2 ^ ?k" using assms by simp
  then have lo: "0 \<le> round_half_even (x * 2 ^ ?k)" by (rule round_half_even_nonneg)
  have "x * 2 ^ ?k \<le> 1 * 2 ^ ?k" using assms by (intro mult_right_mono) simp_all
  then have "x * 2 ^ ?k \<le> of_int (2 ^ ?k)" by simp
  then have hi: "round_half_even (x * 2 ^ ?k) \<le> 2 ^ ?k" by (rule round_half_even_le)
  from lo have "0 \<le> f32_round x" unfolding eq by simp
  moreover from hi have "(of_int (round_half_even (x * 2 ^ ?k)) :: rat) \<le> of_int (2 ^ ?k)"
    by (simp only: of_int_le_iff)
  then have "f32_round x \<le> 1" unfolding eq by (simp add: divide_le_eq)
  ultimately show ?thesis by simp
qed

lemma f32_round_error:
  assumes "0 \<le> x" "x < 1"
  shows "\<bar>f32_round x - x\<bar> \<le> 1 / 2 ^ 25"
proof (cases "x \<le> 0")
  case True
  with assms show ?thesis by (simp add: f32_round_def)
next
  case False
  let ?k = "norm_shift 149 x"
  have eq: "f32_round x = of_int (round_half_even (x * 2 ^ ?k)) / 2 ^ ?k"
    using False by (simp add: f32_round_def Let_def)
  have "x * 2 ^ 24 < 1 * 2 ^ 24" using assms by (intro mult_strict_right_mono) simp_all
  then have k: "24 \<le> ?k" by (intro norm_shift_ge) simp_all
  have "f32_round x - x = (of_int (round_half_even (x * 2 ^ ?k)) - x * 2 ^ ?k) / 2 ^ ?k"
    unfolding eq by (simp add: diff_divide_distrib)
  then have "\<bar>f32_round x - x\<bar> = \<bar>of_int (round_half_even (x * 2 ^ ?k)) - x * 2 ^ ?k\<bar> / 2 ^ ?k"
    by (simp add: abs_divide)   
  also have "\<dots> \<le> (1 / 2) / 2 ^ ?k"
    by (intro divide_right_mono round_half_even_error) simp
  also have "\<dots> = 1 / 2 ^ Suc ?k" by simp
  also have "\<dots> \<le> 1 / 2 ^ 25"
    using k by (intro divide_left_mono power_increasing) simp_all
  finally show ?thesis .
qed

lemma f32_round_one: "f32_round 1 = 1"
  by (simp add: f32_round_def round_half_even_def eval_nat_numeral)

lemma div_255_bounds:
  assumes "n \<le> (255 :: nat)"
  shows "0 \<le> f32_round (of_nat n / 255) \<and> f32_round (of_nat n / 255) \<le> 1
       \<and> \<bar>f32_round (of_nat n / 255) - of_nat n / 255\<bar> \<le> 1 / 2 ^ 25"
proof -
  let ?x = "of_nat n / 255 :: rat"
  from assms have "(of_nat n :: rat) \<le> of_nat 255" by (simp only: of_nat_le_iff)
  then have x1: "?x \<le> 1" by simp
  have x0: "0 \<le> ?x" by simp
  have err: "\<bar>f32_round ?x - ?x\<bar> \<le> 1 / 2 ^ 25"
  proof (cases "n = 255")
    case True
    then show ?thesis by (simp add: f32_round_one)
  next
    case False
    with assms have "n < 255" by simp
    then have "(of_nat n :: rat) < of_nat 255" by (simp only: of_nat_less_iff)
    then have "?x < 1" by simp
    with x0 show ?thesis by (rule f32_round_error)
  qed
  with f32_round_range [OF x0 x1] show ?thesis by simp
qed

lemma uchar_div_255_bounds:
  "\<exists>q. uchar_div_255 b = Finite q \<and> 0 \<le> q \<and> q \<le> 1
       \<and> \<bar>q - of_nat (unat b) / 255\<bar> \<le> 1 / 2 ^ 25"
proof -
  have "unat b < 2 ^ 8" using unsigned_less [of b, where 'a = nat] by simp
  then have "unat b \<le> 255" by simp
  from div_255_bounds [OF this] show ?thesis
    unfolding uchar_div_255_def by blast
qed

subsection \<open>\<open>max_element\<close>\<close>

lemma f32_less_irrefl: "\<not> f32_less a a"
  by (cases a) simp_all

lemma f32_less_trans: "f32_less a b \<Longrightarrow> f32_less b c \<Longrightarrow> f32_less a c"
  by (cases a; cases b; cases c) simp_all

lemma f32_less_asym: "f32_less a b \<Longrightarrow> \<not> f32_less b a"
  by (cases a; cases b) simp_all

lemma f32_less_total: "a \<noteq> NaN \<Longrightarrow> b \<noteq> NaN \<Longrightarrow> f32_less a b \<or> a = b \<or> f32_less b a"
  by (cases a; cases b) auto

lemma max_element_from_spec:
  "max_element_from v li i xs = li \<and> (\<forall>x \<in> set xs. \<not> f32_less v x)
   \<or> (i \<le> max_element_from v li i xs \<and> max_element_from v li i xs < i + length xs
      \<and> f32_less v (xs ! (max_element_from v li i xs - i))
      \<and> (\<forall>x \<in> set xs. \<not> f32_less (xs ! (max_element_from v li i xs - i)) x)
      \<and> (v \<noteq> NaN \<and> NaN \<notin> set xs \<longrightarrow>
            (\<forall>j < max_element_from v li i xs - i.
               f32_less (xs ! j) (xs ! (max_element_from v li i xs - i)))))"
proof (induction xs arbitrary: v li i)
  case Nil
  then show ?case by simp
next
  case (Cons x xs)
  show ?case
  proof (cases "f32_less v x")
    case True
    let ?r = "max_element_from x i (Suc i) xs"
    have eq: "max_element_from v li i (x # xs) = ?r" using True by simp
    from Cons.IH [of x i "Suc i"] show ?thesis
    proof
      assume a: "?r = i \<and> (\<forall>y \<in> set xs. \<not> f32_less x y)"
      then show ?thesis
        unfolding eq using True by (auto simp: f32_less_irrefl)
    next
      assume b: "Suc i \<le> ?r \<and> ?r < Suc i + length xs
        \<and> f32_less x (xs ! (?r - Suc i))
        \<and> (\<forall>y \<in> set xs. \<not> f32_less (xs ! (?r - Suc i)) y)
        \<and> (x \<noteq> NaN \<and> NaN \<notin> set xs \<longrightarrow>
            (\<forall>j < ?r - Suc i. f32_less (xs ! j) (xs ! (?r - Suc i))))"
      then have idx: "?r - i = Suc (?r - Suc i)" by linarith
      have nth: "(x # xs) ! (?r - i) = xs ! (?r - Suc i)" by (simp add: idx)
      have early: "f32_less ((x # xs) ! j) (xs ! (?r - Suc i))"
        if "v \<noteq> NaN \<and> NaN \<notin> set (x # xs)" "j < ?r - i" for j
        using that b idx by (cases j) auto
      show ?thesis
        unfolding eq nth using b True early
        by (auto intro: f32_less_trans dest: f32_less_asym)
    qed
  next
    case False
    let ?r = "max_element_from v li (Suc i) xs"
    have eq: "max_element_from v li i (x # xs) = ?r" using False by simp
    from Cons.IH [of v li "Suc i"] show ?thesis
    proof
      assume a: "?r = li \<and> (\<forall>y \<in> set xs. \<not> f32_less v y)"
      then show ?thesis unfolding eq using False by auto
    next
      assume b: "Suc i \<le> ?r \<and> ?r < Suc i + length xs
        \<and> f32_less v (xs ! (?r - Suc i))
        \<and> (\<forall>y \<in> set xs. \<not> f32_less (xs ! (?r - Suc i)) y)
        \<and> (v \<noteq> NaN \<and> NaN \<notin> set xs \<longrightarrow>
            (\<forall>j < ?r - Suc i. f32_less (xs ! j) (xs ! (?r - Suc i))))"
      then have idx: "?r - i = Suc (?r - Suc i)" by linarith
      have nth: "(x # xs) ! (?r - i) = xs ! (?r - Suc i)" by (simp add: idx)
      have notx: "\<not> f32_less (xs ! (?r - Suc i)) x"
        using b False f32_less_trans by blast
      have x_less: "f32_less x (xs ! (?r - Suc i))" if "v \<noteq> NaN" "x \<noteq> NaN"
        using f32_less_total [OF that] False b f32_less_trans by blast
      have early: "f32_less ((x # xs) ! j) (xs ! (?r - Suc i))"
        if "v \<noteq> NaN \<and> NaN \<notin> set (x # xs)" "j < ?r - i" for j
      proof (cases j)
        case 0
        with that x_less show ?thesis by auto
      next
        case (Suc j')
        with that b idx show ?thesis by auto
      qed
      show ?thesis
        unfolding eq nth using b notx early by auto
    qed
  qed
qed

lemma max_element_Nil: "max_element [] = 0"
  by (simp add: max_element_def)

lemma max_element_spec:
  assumes "xs \<noteq> []"
  shows "max_element xs < length xs
       \<and> (\<forall>j < length xs. \<not> f32_less (xs ! max_element xs) (xs ! j))
       \<and> (NaN \<notin> set xs \<longrightarrow> (\<forall>j < max_element xs. f32_less (xs ! j) (xs ! max_element xs)))"
proof -
  from assms obtain x rest where xs: "xs = x # rest" by (cases xs) auto
  let ?r = "max_element_from x 0 (Suc 0) rest"
  have r: "max_element (x # rest) = ?r" by (simp add: max_element_def)
  from max_element_from_spec [of x 0 "Suc 0" rest]
  have "?r < length (x # rest)
       \<and> (\<forall>j < length (x # rest). \<not> f32_less ((x # rest) ! ?r) ((x # rest) ! j))
       \<and> (NaN \<notin> set (x # rest) \<longrightarrow> (\<forall>j < ?r. f32_less ((x # rest) ! j) ((x # rest) ! ?r)))"
  proof
    assume a: "?r = 0 \<and> (\<forall>y \<in> set rest. \<not> f32_less x y)"
    have top: "\<not> f32_less x ((x # rest) ! j)" if "j < length (x # rest)" for j
      using that a by (cases j) (auto simp: f32_less_irrefl)
    from a top show ?thesis by simp
  next
    assume b: "Suc 0 \<le> ?r \<and> ?r < Suc 0 + length rest
      \<and> f32_less x (rest ! (?r - Suc 0))
      \<and> (\<forall>y \<in> set rest. \<not> f32_less (rest ! (?r - Suc 0)) y)
      \<and> (x \<noteq> NaN \<and> NaN \<notin> set rest \<longrightarrow>
            (\<forall>j < ?r - Suc 0. f32_less (rest ! j) (rest ! (?r - Suc 0))))"
    then obtain k where k: "?r = Suc k" by (cases ?r) auto
    have top: "\<not> f32_less (rest ! k) ((x # rest) ! j)" if "j < length (x # rest)" for j
      using that b k by (cases j) (auto dest: f32_less_asym)
    have early: "f32_less ((x # rest) ! j) (rest ! k)" if "NaN \<notin> set (x # rest)" "j < Suc k" for j
      using that b k by (cases j) auto
    from b top early show ?thesis
      unfolding k by auto
  qed
  then show ?thesis unfolding xs r .
qed

lemma max_element_tie: "max_element [Finite (1 / 2), Finite (1 / 2), Finite (1 / 2)] = 0"
  by (simp add: max_element_def)

lemma read_floats_length:
  "read_floats h a n = Some xs \<Longrightarrow> 0 \<le> n \<and> length xs = nat n"
  by (auto simp: read_floats_def split: if_splits option.splits)

lemma max_element_range:
  "(xs = [] \<longrightarrow> max_element xs = 0) \<and> (xs \<noteq> [] \<longrightarrow> max_element xs < length xs)"
  using max_element_spec [of xs] by (auto simp: max_element_Nil)

lemma forward_and_argmax_range:
  assumes "forward_and_argmax rt s h1 = Some (Inr idx, h2)"
  shows "0 \<le> idx \<and> (0 < num_classes s \<longrightarrow> idx < num_classes s)
       \<and> (num_classes s = 0 \<longrightarrow> idx = 0)"
proof -
  from assms obtain logits where idx: "idx = int (max_element logits)" and len: "length logits = nat (num_classes s)"
    and nn: "0 \<le> num_classes s"
    by (auto simp: forward_and_argmax_def split: option.splits prod.splits sum.splits
        dest!: read_floats_length)
  from max_element_range [of logits] idx len nn show ?thesis
    by (cases "logits = []") auto
qed

lemma PerformInference_outcome:
  "PerformInference rt s h inputData = Undefined
   \<or> (\<exists>r h'. PerformInference rt s h inputData = Returned (r, s, h')
        \<and> (r = - 2 \<or> 0 \<le> r \<and> (0 < num_classes s \<longrightarrow> r < num_classes s)
                         \<and> (num_classes s = 0 \<longrightarrow> r = 0)))"
proof (cases "preprocess s h inputData")
  case (Returned h1)
  show ?thesis
  proof (cases "forward_and_argmax rt s h1")
    case None
    with Returned show ?thesis by (simp add: PerformInference_def)
  next
    case (Some res)
    obtain v h2 where res: "res = (v, h2)" by (cases res)
    show ?thesis
    proof (cases v)
      case (Inl e)
      with Returned Some res show ?thesis by (simp add: PerformInference_def)
    next
      case (Inr idx)
      with Some res have "forward_and_argmax rt s h1 = Some (Inr idx, h2)" by simp
      from forward_and_argmax_range [OF this] Returned Some res Inr
      show ?thesis by (simp add: PerformInference_def)
    qed
  qed
qed (simp_all add: PerformInference_def)

subsection \<open>The preprocessing loops\<close>

lemma store_Some:
  "h a = Some buf \<Longrightarrow> i < length buf \<Longrightarrow> store h a i v = Some (h(a \<mapsto> buf[i := v]))"
  by (simp add: store_def)

lemma index_div_mod:
  fixes N :: nat
  assumes "p < N"
  shows "(c * N + p) mod N = p" "(c * N + p) div N = c"
  using assms by simp_all

lemma index_of_div_mod:
  fixes N :: nat
  assumes "i mod N = p" "i div N = c"
  shows "i = c * N + p"
  using assms by (metis div_mult_mod_eq mult.commute)

lemma channel_loop_spec:
  assumes "h a = Some buf" and "p < N"
    and "K * N \<le> length buf" and "N * K \<le> length tex" and "int (K * N) \<le> INT_MAX + 1"
    and "ch \<le> K"
  shows "\<exists>buf'. channel_loop (int N) (int K) a tex p ch h = Some (h(a \<mapsto> buf'))
           \<and> length buf' = length buf
           \<and> (\<forall>i < length buf. buf' ! i =
                 (if i mod N = p \<and> ch \<le> i div N \<and> i div N < K
                  then uchar_div_255 (tex ! (p * K + i div N)) else buf ! i))"
  using assms
proof (induction "K - ch" arbitrary: ch h buf)
  case 0
  then have "ch = K" by simp
  then have "channel_loop (int N) (int K) a tex p ch h = Some h"
    by (simp add: channel_loop.simps)
  moreover have "h = h(a \<mapsto> buf)" using 0 by (simp add: fun_upd_idem)
  ultimately show ?case using \<open>ch = K\<close> by (intro exI [of _ buf]) auto
next
  case (Suc d)
  then have lt: "ch < K" by simp
  let ?i = "ch * N + p" and ?j = "p * K + ch"
  let ?v = "uchar_div_255 (tex ! ?j)"
  have "Suc ch * N \<le> K * N" using lt by (intro mult_le_mono1) simp
  with \<open>p < N\<close> have i_lt: "?i < K * N" by simp
  have "Suc p * K \<le> N * K" using \<open>p < N\<close> by (intro mult_le_mono1) simp
  with lt have j_lt: "?j < N * K" by simp
  from i_lt Suc.prems have i_buf: "?i < length buf" and i_max: "int ?i \<le> INT_MAX" by linarith+
  from j_lt Suc.prems have j_tex: "?j < length tex" by linarith
  from j_lt have "?j < K * N" by (simp only: mult.commute [of N K])
  then have "int ?j < int (K * N)" by (simp only: of_nat_less_iff)
  with Suc.prems have j_max: "int ?j \<le> INT_MAX" by linarith
  let ?buf1 = "buf[?i := ?v]"
  let ?h1 = "h(a \<mapsto> ?buf1)"
  have st: "store h a ?i ?v = Some ?h1"
    using Suc.prems i_buf by (simp add: store_Some)
  have nat_i: "nat (int ch * int N + int p) = ?i" and nat_j: "nat (int p * int K + int ch) = ?j"
    by (simp_all add: nat_add_distrib nat_mult_distrib)
  have step: "channel_loop (int N) (int K) a tex p ch h
                = channel_loop (int N) (int K) a tex p (Suc ch) ?h1"
    using lt i_max j_max j_tex st nat_i nat_j
    by (subst channel_loop.simps) (simp add: Let_def)
  have "\<exists>buf'. channel_loop (int N) (int K) a tex p (Suc ch) ?h1 = Some (?h1(a \<mapsto> buf'))
           \<and> length buf' = length ?buf1
           \<and> (\<forall>i < length ?buf1. buf' ! i =
                 (if i mod N = p \<and> Suc ch \<le> i div N \<and> i div N < K
                  then uchar_div_255 (tex ! (p * K + i div N)) else ?buf1 ! i))"
    using Suc.hyps(2) lt Suc.prems by (intro Suc.hyps(1)) auto
  then obtain buf' where
    run: "channel_loop (int N) (int K) a tex p (Suc ch) ?h1 = Some (?h1(a \<mapsto> buf'))"
    and len: "length buf' = length buf"
    and vals: "\<forall>i < length buf. buf' ! i =
                 (if i mod N = p \<and> Suc ch \<le> i div N \<and> i div N < K
                  then uchar_div_255 (tex ! (p * K + i div N)) else ?buf1 ! i)"
    by auto
  have "buf' ! i = (if i mod N = p \<and> ch \<le> i div N \<and> i div N < K
                  then uchar_div_255 (tex ! (p * K + i div N)) else buf ! i)"
    if "i < length buf" for i
  proof (cases "i = ?i")
    case True
    then have "i mod N = p" "i div N = ch"
      using \<open>p < N\<close> by simp_all
    with vals that True lt show ?thesis by simp
  next
    case False
    then have "\<not> (i mod N = p \<and> i div N = ch)"
      using index_of_div_mod by blast
    with vals that False show ?thesis by (auto simp: le_Suc_eq Suc_le_eq)
  qed
  with step run len show ?case by (intro exI [of _ buf']) simp
qed

lemma div_less_iff_mult:
  fixes N :: nat
  assumes "0 < N"
  shows "i div N < K \<longleftrightarrow> i < K * N"
  using assms by (simp add: div_less_iff_less_mult)

lemma pixel_loop_spec:
  assumes "h a = Some buf"
    and "K * N \<le> length buf" and "N * K \<le> length tex" and "int (K * N) \<le> INT_MAX + 1"
    and "p \<le> N"
  shows "\<exists>buf'. pixel_loop (int N) (int K) a tex p h = Some (h(a \<mapsto> buf'))
           \<and> length buf' = length buf
           \<and> (\<forall>i < length buf. buf' ! i =
                 (if i < K * N \<and> p \<le> i mod N
                  then uchar_div_255 (tex ! (i mod N * K + i div N)) else buf ! i))"
  using assms
proof (induction "N - p" arbitrary: p h buf)
  case 0
  then have pN: "p = N" by simp
  then have "pixel_loop (int N) (int K) a tex p h = Some h"
    by (simp add: pixel_loop.simps)
  moreover have "h = h(a \<mapsto> buf)" using 0 by (simp add: fun_upd_idem)
  moreover have "\<not> (i < K * N \<and> p \<le> i mod N)" for i
  proof (cases "N = 0")
    case True
    then show ?thesis by simp
  next
    case False
    then have "i mod N < N" by simp
    with pN show ?thesis by simp
  qed
  ultimately show ?case by (intro exI [of _ buf]) auto
next
  case (Suc d)
  then have lt: "p < N" by simp
  from channel_loop_spec [where h = h and a = a and ch = 0, OF Suc.prems(1) lt Suc.prems(2,3,4)]
  obtain buf1 where
    inner: "channel_loop (int N) (int K) a tex p 0 h = Some (h(a \<mapsto> buf1))"
    and len1: "length buf1 = length buf"
    and vals1: "\<forall>i < length buf. buf1 ! i =
                 (if i mod N = p \<and> i div N < K
                  then uchar_div_255 (tex ! (p * K + i div N)) else buf ! i)"
    by auto
  let ?h1 = "h(a \<mapsto> buf1)"
  have step: "pixel_loop (int N) (int K) a tex p h = pixel_loop (int N) (int K) a tex (Suc p) ?h1"
    using lt inner by (subst pixel_loop.simps) simp
  have "\<exists>buf'. pixel_loop (int N) (int K) a tex (Suc p) ?h1 = Some (?h1(a \<mapsto> buf'))
           \<and> length buf' = length buf1
           \<and> (\<forall>i < length buf1. buf' ! i =
                 (if i < K * N \<and> Suc p \<le> i mod N
                  then uchar_div_255 (tex ! (i mod N * K + i div N)) else buf1 ! i))"
    using Suc.hyps(2) lt Suc.prems len1 by (intro Suc.hyps(1)) auto
  then obtain buf' where
    run: "pixel_loop (int N) (int K) a tex (Suc p) ?h1 = Some (?h1(a \<mapsto> buf'))"
    and len': "length buf' = length buf1"
    and vals': "\<forall>i < length buf1. buf' ! i =
                 (if i < K * N \<and> Suc p \<le> i mod N
                  then uchar_div_255 (tex ! (i mod N * K + i div N)) else buf1 ! i)"
    by blast
  from len' len1 have len: "length buf' = length buf" by simp
  from vals' len1 have vals: "\<forall>i < length buf. buf' ! i =
                 (if i < K * N \<and> Suc p \<le> i mod N
                  then uchar_div_255 (tex ! (i mod N * K + i div N)) else buf1 ! i)"
    by simp
  have Npos: "0 < N" using lt by simp
  have "buf' ! i = (if i < K * N \<and> p \<le> i mod N
                  then uchar_div_255 (tex ! (i mod N * K + i div N)) else buf ! i)"
    if "i < length buf" for i
  proof (cases "i mod N = p")
    case True
    with vals vals1 that show ?thesis
      by (simp add: div_less_iff_mult [OF Npos])
  next
    case False
    with vals vals1 that show ?thesis
      by (auto simp: Suc_le_eq le_less)
  qed
  with step run len show ?case by (intro exI [of _ buf']) simp
qed

lemma length_rgba2rgb: "length (rgba2rgb xs) = 3 * (length xs div 4)"
  by (induction xs rule: rgba2rgb.induct) simp_all

lemma nth_rgba2rgb:
  "p < length xs div 4 \<Longrightarrow> c < 3 \<Longrightarrow> rgba2rgb xs ! (p * 3 + c) = xs ! (p * 4 + c)"
proof (induction xs arbitrary: p rule: rgba2rgb.induct)
  case (1 r g b a rest)
  show ?case
  proof (cases p)
    case 0
    with 1(3) show ?thesis
      by (cases c) (auto simp: nth_Cons split: nat.splits)
  next
    case (Suc p')
    with 1 have "rgba2rgb rest ! (p' * 3 + c) = rest ! (p' * 4 + c)" by simp
    with Suc show ?thesis by simp
  qed
qed simp_all

section \<open>The device registry\<close>

text \<open>
  C6, as stated, fails: the loop keeps an empty device name, since it does not contain
  \<open>GNA\<close>, and \<open>GetDeviceName\<close> then returns the empty string.
\<close>

theorem GetDeviceName_empty_counterexample:
  "GetDeviceCount empty_name_core initial_globals = Returned (2, empty_name_globals)
   \<and> GetDeviceName empty_name_globals 0 = Returned []"
  by (simp add: GetDeviceCount_def GetDeviceName_def empty_name_core_def empty_name_globals_def
      stub_core_def initial_globals_def int_of_size_t_values)

text \<open>
  C6, amended. When \<open>GetDeviceCount\<close> returns \<open>n\<close>, the device list holds, in the
  runtime's order, exactly the runtime's devices whose name does not contain \<open>GNA\<close>;
  \<open>n\<close> is the length of the list converted to \<^verbatim>\<open>int\<close> (the length itself below
  \<open>2 ^ 31\<close>); and for every index \<open>0 \<le> i < n\<close>, \<open>GetDeviceName i\<close> returns the list's
  entry \<open>i\<close>, a name of the runtime that does not contain \<open>GNA\<close>; it is non-empty when
  every name the runtime lists is.
\<close>

theorem GetDeviceCount_device_list:
  assumes "GetDeviceCount rt s = Returned (n, s')"
  shows "\<exists>devices. get_available_devices rt = Inr devices
           \<and> available_devices s' = filter (\<lambda>d. \<not> (\<exists>u v. d = u @ ''GNA'' @ v)) devices
           \<and> n = int_of_size_t (length (available_devices s'))
           \<and> (length (available_devices s') < 2 ^ 31 \<longrightarrow> n = int (length (available_devices s')))
           \<and> (\<forall>i. 0 \<le> i \<and> i < n \<longrightarrow>
                 (\<exists>name. GetDeviceName s' i = Returned name
                    \<and> name = available_devices s' ! nat i
                    \<and> name \<in> set devices
                    \<and> \<not> (\<exists>u v. name = u @ ''GNA'' @ v)
                    \<and> ((\<forall>d \<in> set devices. d \<noteq> []) \<longrightarrow> name \<noteq> [])))"
proof -
  from assms obtain devices where dv: "get_available_devices rt = Inr devices"
    by (cases "get_available_devices rt") (simp_all add: GetDeviceCount_def)
  let ?keep = "filter (\<lambda>d. \<not> (\<exists>u v. d = u @ ''GNA'' @ v)) devices"
  from assms dv have s': "available_devices s' = ?keep"
    and n: "n = int_of_size_t (length (available_devices s'))"
    by (auto simp: GetDeviceCount_def Let_def device_loop_filter str_find_None_iff)
  have small: "length (available_devices s') < 2 ^ 31 \<longrightarrow> n = int (length (available_devices s'))"
    using n int_of_size_t_small by blast
  have names: "\<exists>name. GetDeviceName s' i = Returned name
                    \<and> name = available_devices s' ! nat i
                    \<and> name \<in> set devices
                    \<and> \<not> (\<exists>u v. name = u @ ''GNA'' @ v)
                    \<and> ((\<forall>d \<in> set devices. d \<noteq> []) \<longrightarrow> name \<noteq> [])"
    if i: "0 \<le> i \<and> i < n" for i
  proof -
    from i n have "i < int (length (available_devices s'))"
      using int_of_size_t_le [of "length (available_devices s')"] by linarith
    with i have lt: "nat i < length (available_devices s')" by linarith
    then have "available_devices s' ! nat i \<in> set ?keep"
      using s' nth_mem by metis
    then have mem: "available_devices s' ! nat i \<in> set devices"
      and nogna: "\<not> (\<exists>u v. available_devices s' ! nat i = u @ ''GNA'' @ v)"
      by simp_all
    from i lt have "GetDeviceName s' i = Returned (available_devices s' ! nat i)"
      by (simp add: GetDeviceName_def)
    with mem nogna show ?thesis by blast
  qed
  show ?thesis
    apply (rule exI [of _ devices])
    apply (intro conjI)
        apply (rule dv)
       apply (rule s')
      apply (rule n)
     apply (rule small)
    apply (intro allI impI)
    apply (erule names)
    done
qed

theorem GetDeviceCount_device_list_witness:
  "GetDeviceCount stub_core initial_globals = Returned (2, enumerated_globals)
   \<and> GetDeviceName enumerated_globals 1 = Returned ''GPU.0''
   \<and> ''GPU.0'' \<noteq> [] \<and> \<not> (\<exists>u v. ''GPU.0'' = u @ ''GNA'' @ v)
   \<and> int (length (available_devices enumerated_globals)) = 2"
proof -
  have run: "GetDeviceCount stub_core initial_globals = Returned (2, enumerated_globals)"
    by (simp add: GetDeviceCount_def stub_core_def initial_globals_def enumerated_globals_def
        int_of_size_t_values)
  from GetDeviceCount_device_list [OF run] obtain devices where
    dv: "get_available_devices stub_core = Inr devices"
    and small: "length (available_devices enumerated_globals) < 2 ^ 31 \<longrightarrow>
                  2 = int (length (available_devices enumerated_globals))"
    and names: "\<forall>i. 0 \<le> i \<and> i < 2 \<longrightarrow>
          (\<exists>name. GetDeviceName enumerated_globals i = Returned name
             \<and> name = available_devices enumerated_globals ! nat i
             \<and> name \<in> set devices
             \<and> \<not> (\<exists>u v. name = u @ ''GNA'' @ v)
             \<and> ((\<forall>d \<in> set devices. d \<noteq> []) \<longrightarrow> name \<noteq> []))"
    by blast
  from dv have devices: "devices = [''CPU'', ''GNA'', ''GPU.0'']"
    by (simp add: stub_core_def)
  then have nonempty: "\<forall>d \<in> set devices. d \<noteq> []" by simp
  have "(0::int) \<le> 1 \<and> (1::int) < 2" by simp
  with names nonempty obtain name where
    "GetDeviceName enumerated_globals 1 = Returned name"
    "name = available_devices enumerated_globals ! nat 1"
    "\<not> (\<exists>u v. name = u @ ''GNA'' @ v)" "name \<noteq> []"
    by blast
  moreover have "available_devices enumerated_globals ! nat 1 = ''GPU.0''"
    by (simp add: enumerated_globals_def)
  moreover have "length (available_devices enumerated_globals) < 2 ^ 31"
    by (simp add: enumerated_globals_def)
  ultimately show ?thesis using run small by simp
qed

section \<open>The model loader\<close>

lemma LoadModel_Returned_cases:
  assumes "LoadModel rt s modelPath index inputDims = Returned (st, s')"
  shows "(st = 1 \<and> s' = s \<and> (\<exists>e. read_model rt modelPath = Inl e))
       \<or> (\<exists>m. read_model rt modelPath = Inr m \<and>
             ((st = 0 \<and> (\<exists>m'. reshape rt m [1, 3, snd inputDims, fst inputDims] = Inr m'
                 \<and> compile_and_bind rt (s\<lparr>model := Some m'\<rparr>) m' index = Returned s'))
            \<or> (st = 2 \<and> (\<exists>e. reshape rt m [1, 3, snd inputDims, fst inputDims] = Inl e)
                 \<and> compile_and_bind rt (s\<lparr>model := Some m\<rparr>) m index = Returned s')))"
  using assms
  by (auto simp: LoadModel_def split: option.splits sum.splits outcome.splits)

lemma compile_and_bind_Returned:
  assumes "compile_and_bind rt s m index = Returned s'"
  shows "\<exists>cm oshape r t p.
           0 \<le> index \<and> nat index < length (available_devices s)
         \<and> compile_model rt m ''MULTI'' (available_devices s ! nat index) = Inr cm
         \<and> output_shape rt cm = Inr oshape \<and> 2 \<le> length oshape
         \<and> create_infer_request rt cm = Inr r
         \<and> get_input_tensor rt r 0 = Inr t \<and> 4 \<le> length (get_shape t)
         \<and> fits_int (int_of_size_t (get_shape t ! 3) * int_of_size_t (get_shape t ! 2))
         \<and> data_float t = Inr p
         \<and> s' = s\<lparr>num_classes := int_of_size_t (oshape ! 1), infer_request := Some r,
                  input_tensor := Some t, input_w := int_of_size_t (get_shape t ! 3),
                  input_h := int_of_size_t (get_shape t ! 2),
                  nPixels := int_of_size_t (get_shape t ! 3) * int_of_size_t (get_shape t ! 2),
                  input_data := p\<rparr>"
  using assms
  by (auto simp: compile_and_bind_def Let_def split: if_splits sum.splits)

lemma compile_and_bind_model:
  "compile_and_bind rt s m index = Returned s' \<Longrightarrow> model s' = model s"
  by (drule compile_and_bind_Returned) auto

text \<open>
  C1. Once the cache property is set: when parsing the model file fails, \<open>LoadModel\<close>
  returns 1 with the globals untouched; when parsing succeeds and compilation and the
  binding steps after it complete, it returns 0 if the reshape to
  \<open>[1, 3, inputDims[1], inputDims[0]]\<close> succeeded and 2 if the reshape threw, in which
  case the steps ran on the model as it was parsed. Conversely a returned status is 1
  only after a failed parse, 0 only after a successful reshape, 2 only after a refused
  one.
\<close>

theorem LoadModel_status:
  assumes cfg: "set_property rt ''GPU'' ''cache'' = None"
  shows "(\<forall>e. read_model rt modelPath = Inl e \<longrightarrow>
            LoadModel rt s modelPath index inputDims = Returned (1, s))
       \<and> (\<forall>m m' s'. read_model rt modelPath = Inr m
            \<and> reshape rt m [1, 3, snd inputDims, fst inputDims] = Inr m'
            \<and> compile_and_bind rt (s\<lparr>model := Some m'\<rparr>) m' index = Returned s' \<longrightarrow>
            LoadModel rt s modelPath index inputDims = Returned (0, s'))
       \<and> (\<forall>m e s'. read_model rt modelPath = Inr m
            \<and> reshape rt m [1, 3, snd inputDims, fst inputDims] = Inl e
            \<and> compile_and_bind rt (s\<lparr>model := Some m\<rparr>) m index = Returned s' \<longrightarrow>
            LoadModel rt s modelPath index inputDims = Returned (2, s') \<and> model s' = Some m)
       \<and> (\<forall>st s'. LoadModel rt s modelPath index inputDims = Returned (st, s') \<longrightarrow>
            (st = 1 \<and> (\<exists>e. read_model rt modelPath = Inl e))
          \<or> (st = 0 \<and> (\<exists>m m'. read_model rt modelPath = Inr m
                \<and> reshape rt m [1, 3, snd inputDims, fst inputDims] = Inr m'))
          \<or> (st = 2 \<and> (\<exists>m e. read_model rt modelPath = Inr m
                \<and> reshape rt m [1, 3, snd inputDims, fst inputDims] = Inl e)))"
proof (intro conjI allI impI)
  fix e assume "read_model rt modelPath = Inl e"
  with cfg show "LoadModel rt s modelPath index inputDims = Returned (1, s)"
    by (simp add: LoadModel_def)
next
  fix m m' s'
  assume "read_model rt modelPath = Inr m
            \<and> reshape rt m [1, 3, snd inputDims, fst inputDims] = Inr m'
            \<and> compile_and_bind rt (s\<lparr>model := Some m'\<rparr>) m' index = Returned s'"
  with cfg show "LoadModel rt s modelPath index inputDims = Returned (0, s')"
    by (simp add: LoadModel_def)
next
  fix m e s'
  assume h: "read_model rt modelPath = Inr m
            \<and> reshape rt m [1, 3, snd inputDims, fst inputDims] = Inl e
            \<and> compile_and_bind rt (s\<lparr>model := Some m\<rparr>) m index = Returned s'"
  with cfg show "LoadModel rt s modelPath index inputDims = Returned (2, s')"
    by (simp add: LoadModel_def)
  from h have "compile_and_bind rt (s\<lparr>model := Some m\<rparr>) m index = Returned s'"
    by simp
  from compile_and_bind_model [OF this] show "model s' = Some m" by simp
next
  fix st s'
  assume "LoadModel rt s modelPath index inputDims = Returned (st, s')"
  from LoadModel_Returned_cases [OF this]
  show "(st = 1 \<and> (\<exists>e. read_model rt modelPath = Inl e))
          \<or> (st = 0 \<and> (\<exists>m m'. read_model rt modelPath = Inr m
                \<and> reshape rt m [1, 3, snd inputDims, fst inputDims] = Inr m'))
          \<or> (st = 2 \<and> (\<exists>m e. read_model rt modelPath = Inr m
                \<and> reshape rt m [1, 3, snd inputDims, fst inputDims] = Inl e))"
    by blast
qed

lemma stub_bind:
  "compile_and_bind stub_core (enumerated_globals\<lparr>model := Some m\<rparr>) m 0 = Returned (loaded_globals m)"
  by (simp add: compile_and_bind_def stub_core_def enumerated_globals_def
      initial_globals_def loaded_globals_def int_of_size_t_values fits_int_def INT_MAX_def)

theorem LoadModel_status_witness:
  "LoadModel stub_core enumerated_globals ''missing.xml'' 0 (2, 1) = Returned (1, enumerated_globals)
   \<and> LoadModel stub_core enumerated_globals ''model.xml'' 0 (2, 1) = Returned (0, loaded_globals 2)
   \<and> LoadModel stub_core enumerated_globals ''fixed.xml'' 0 (2, 1) = Returned (2, loaded_globals 1)"
proof -
  have cfg: "set_property stub_core ''GPU'' ''cache'' = None"
    by (simp add: stub_core_def)
  have r1: "read_model stub_core ''missing.xml'' = Inl (Exception ''read_model'')"
    and r2: "read_model stub_core ''model.xml'' = Inr 0"
    and r3: "read_model stub_core ''fixed.xml'' = Inr 1"
    and s2: "reshape stub_core 0 [1, 3, snd (2 :: int, 1 :: int), fst (2 :: int, 1 :: int)] = Inr 2"
    and s3: "reshape stub_core 1 [1, 3, snd (2 :: int, 1 :: int), fst (2 :: int, 1 :: int)] = Inl (Exception ''reshape'')"
    by (simp_all add: stub_core_def)
  from LoadModel_status [OF cfg, of "''missing.xml''" enumerated_globals 0 "(2, 1)"] r1
  have a: "LoadModel stub_core enumerated_globals ''missing.xml'' 0 (2, 1)
             = Returned (1, enumerated_globals)"
    by blast
  from LoadModel_status [OF cfg, of "''model.xml''" enumerated_globals 0 "(2, 1)"] r2 s2
    stub_bind [of 2]
  have b: "LoadModel stub_core enumerated_globals ''model.xml'' 0 (2, 1)
             = Returned (0, loaded_globals 2)"
    by blast
  from LoadModel_status [OF cfg, of "''fixed.xml''" enumerated_globals 0 "(2, 1)"] r3 s3
    stub_bind [of 1]
  have c: "LoadModel stub_core enumerated_globals ''fixed.xml'' 0 (2, 1)
             = Returned (2, loaded_globals 1)"
    by blast
  from a b c show ?thesis by simp
qed

text \<open>
  C5. When \<open>LoadModel\<close> returns 1, parsing has failed and every global keeps its value:
  the compiled model, the infer request, the input tensor, the cached storage pointer,
  the class count and the cached dimensions; every later \<open>PerformInference\<close> behaves as
  it would have before the call.
\<close>

theorem LoadModel_parse_failure_keeps_state:
  assumes "LoadModel rt s modelPath index inputDims = Returned (1, s')"
  shows "(\<exists>e. read_model rt modelPath = Inl e)
       \<and> s' = s
       \<and> compiled_model s' = compiled_model s
       \<and> infer_request s' = infer_request s
       \<and> input_tensor s' = input_tensor s
       \<and> input_data s' = input_data s
       \<and> num_classes s' = num_classes s
       \<and> input_w s' = input_w s \<and> input_h s' = input_h s \<and> nPixels s' = nPixels s
       \<and> (\<forall>rt' h inputData.
             PerformInference rt' s' h inputData = PerformInference rt' s h inputData)"
proof -
  from LoadModel_Returned_cases [OF assms]
  have "(\<exists>e. read_model rt modelPath = Inl e) \<and> s' = s"
    by auto
  then show ?thesis by simp
qed

theorem LoadModel_parse_failure_keeps_state_witness:
  "LoadModel stub_core (loaded_globals 2) ''missing.xml'' 0 (2, 1) = Returned (1, loaded_globals 2)
   \<and> (\<exists>e. read_model stub_core ''missing.xml'' = Inl e)"
proof -
  have run: "LoadModel stub_core (loaded_globals 2) ''missing.xml'' 0 (2, 1)
               = Returned (1, loaded_globals 2)"
    by (simp add: LoadModel_def stub_core_def)
  from LoadModel_parse_failure_keeps_state [OF run] run show ?thesis
    by blast
qed

text \<open>
  C10. When \<open>LoadModel\<close> returns 0 or 2, the cached width and height are dimensions 3
  and 2 of the shape of the input tensor of the request created from the compiled model
  (converted to \<^verbatim>\<open>int\<close>; the dimensions themselves below \<open>2 ^ 31\<close>), and the pixel
  count is their product. When the status is 2 the compiled model is the model as it was
  parsed, and the globals do not depend on \<open>inputDims\<close>: any other refused resolution
  gives the same result.
\<close>

theorem LoadModel_caches_tensor_shape:
  assumes run: "LoadModel rt s modelPath index inputDims = Returned (st, s')"
    and st: "st = 0 \<or> st = 2"
  shows "\<exists>m cm r t.
           model s' = Some m
         \<and> compile_model rt m ''MULTI'' (available_devices s ! nat index) = Inr cm
         \<and> create_infer_request rt cm = Inr r \<and> infer_request s' = Some r
         \<and> get_input_tensor rt r 0 = Inr t \<and> input_tensor s' = Some t
         \<and> 4 \<le> length (get_shape t)
         \<and> input_w s' = int_of_size_t (get_shape t ! 3)
         \<and> input_h s' = int_of_size_t (get_shape t ! 2)
         \<and> nPixels s' = input_w s' * input_h s'
         \<and> (get_shape t ! 3 < 2 ^ 31 \<longrightarrow> input_w s' = int (get_shape t ! 3))
         \<and> (get_shape t ! 2 < 2 ^ 31 \<longrightarrow> input_h s' = int (get_shape t ! 2))
         \<and> (st = 2 \<longrightarrow> read_model rt modelPath = Inr m
               \<and> (\<forall>dims2. (\<exists>e. reshape rt m [1, 3, snd dims2, fst dims2] = Inl e) \<longrightarrow>
                     LoadModel rt s modelPath index dims2 = Returned (2, s')))"
proof -
  from run have cfg: "set_property rt ''GPU'' ''cache'' = None"
    by (auto simp: LoadModel_def split: option.splits)
  from LoadModel_Returned_cases [OF run] st
  obtain m0 m where rd: "read_model rt modelPath = Inr m0"
    and bind: "compile_and_bind rt (s\<lparr>model := Some m\<rparr>) m index = Returned s'"
    and native: "st = 2 \<longrightarrow> m = m0"
    by auto
  from compile_and_bind_Returned [OF bind]
  obtain cm oshape r t p where
    cm: "compile_model rt m ''MULTI'' (available_devices s ! nat index) = Inr cm"
    and r: "create_infer_request rt cm = Inr r"
    and t: "get_input_tensor rt r 0 = Inr t" and len: "4 \<le> length (get_shape t)"
    and s': "s' = s\<lparr>model := Some m, num_classes := int_of_size_t (oshape ! 1),
                  infer_request := Some r,
                  input_tensor := Some t, input_w := int_of_size_t (get_shape t ! 3),
                  input_h := int_of_size_t (get_shape t ! 2),
                  nPixels := int_of_size_t (get_shape t ! 3) * int_of_size_t (get_shape t ! 2),
                  input_data := p\<rparr>"
    by auto
  have indep: "LoadModel rt s modelPath index dims2 = Returned (2, s')"
    if "st = 2" "\<exists>e. reshape rt m [1, 3, snd dims2, fst dims2] = Inl e" for dims2
    using that cfg rd bind native by (auto simp: LoadModel_def)
  have w: "get_shape t ! 3 < 2 ^ 31 \<longrightarrow> input_w s' = int (get_shape t ! 3)"
    and h: "get_shape t ! 2 < 2 ^ 31 \<longrightarrow> input_h s' = int (get_shape t ! 2)"
    using int_of_size_t_small by (auto simp: s')
  show ?thesis
    apply (rule exI [of _ m], rule exI [of _ cm], rule exI [of _ r], rule exI [of _ t])
    apply (intro conjI)
    apply (simp add: s')
    apply (rule cm)
    apply (rule r)
    apply (simp add: s')
    apply (rule t)
    apply (simp add: s')
    apply (rule len)
    apply (simp add: s')
    apply (simp add: s')
    apply (simp add: s')
    apply (rule w)
    apply (rule h)
    using native rd indep apply blast
    done
qed

theorem LoadModel_caches_tensor_shape_witness:
  "LoadModel stub_core enumerated_globals ''fixed.xml'' 0 (64, 64) = Returned (2, loaded_globals 1)
   \<and> input_w (loaded_globals 1) = 2 \<and> input_h (loaded_globals 1) = 1
   \<and> nPixels (loaded_globals 1) = 2
   \<and> LoadModel stub_core enumerated_globals ''fixed.xml'' 0 (32, 16) = Returned (2, loaded_globals 1)"
proof -
  have run: "LoadModel stub_core enumerated_globals ''fixed.xml'' 0 (64, 64)
               = Returned (2, loaded_globals 1)"
    by (simp add: LoadModel_def compile_and_bind_def stub_core_def enumerated_globals_def
      initial_globals_def loaded_globals_def int_of_size_t_values fits_int_def INT_MAX_def)
  have st: "(2::int) = 0 \<or> (2::int) = 2" by simp
  from LoadModel_caches_tensor_shape [OF run st]
  obtain m t where m: "model (loaded_globals 1) = Some m"
    and t: "input_tensor (loaded_globals 1) = Some t"
    and w: "input_w (loaded_globals 1) = int_of_size_t (get_shape t ! 3)"
    and h: "input_h (loaded_globals 1) = int_of_size_t (get_shape t ! 2)"
    and n: "nPixels (loaded_globals 1) = input_w (loaded_globals 1) * input_h (loaded_globals 1)"
    and indep: "\<forall>dims2. (\<exists>e. reshape stub_core m [1, 3, snd dims2, fst dims2] = Inl e) \<longrightarrow>
                     LoadModel stub_core enumerated_globals ''fixed.xml'' 0 dims2
                       = Returned (2, loaded_globals 1)"
    by auto
  from m have m1: "m = 1" by (simp add: loaded_globals_def)
  from t have t1: "t = \<lparr>get_shape = [1, 3, 1, 2], data_float = Inr 100\<rparr>"
    by (simp add: loaded_globals_def)
  have "\<exists>e. reshape stub_core m [1, 3, snd (32 :: int, 16 :: int), fst (32 :: int, 16 :: int)] = Inl e"
    by (simp add: stub_core_def m1)
  with indep have "LoadModel stub_core enumerated_globals ''fixed.xml'' 0 (32, 16)
                       = Returned (2, loaded_globals 1)"
    by blast
  with run w h n show ?thesis
    by (simp add: t1 int_of_size_t_values)
qed

section \<open>The preprocessor\<close>

lemma preprocess_spec:
  assumes w: "1 \<le> input_w s" and ht: "1 \<le> input_h s"
    and npx: "nPixels s = input_w s * input_h s" and nch: "num_channels s = 3"
    and frame: "4 * nat (nPixels s) \<le> length inputData"
    and buf: "h (input_data s) = Some buf" and room: "3 * nat (nPixels s) \<le> length buf"
    and fits: "3 * nPixels s \<le> INT_MAX + 1"
  shows "\<exists>buf'. cvtColor_RGBA2RGB (input_h s) (input_w s) inputData
               = Returned (rgba2rgb (take (4 * nat (nPixels s)) inputData))
           \<and> preprocess s h inputData = Returned (h(input_data s \<mapsto> buf'))
           \<and> length buf' = length buf
           \<and> (\<forall>i < length buf. buf' ! i =
                 (if i < 3 * nat (nPixels s)
                  then uchar_div_255 (rgba2rgb (take (4 * nat (nPixels s)) inputData)
                         ! (i mod nat (nPixels s) * 3 + i div nat (nPixels s)))
                  else buf ! i))"
proof -
  let ?N = "nat (nPixels s)"
  let ?tex = "rgba2rgb (take (4 * ?N) inputData)"
  have pos: "1 \<le> input_w s * input_h s"
    using mult_mono [of 1 "input_w s" 1 "input_h s"] w ht by simp
  have N: "nPixels s = int ?N" using npx pos by simp
  have bytes: "nat (input_h s * input_w s * 4) = 4 * ?N"
    using npx pos by (simp add: mult.commute nat_mult_distrib)
  have cvt: "cvtColor_RGBA2RGB (input_h s) (input_w s) inputData = Returned ?tex"
    using w ht frame bytes by (simp add: cvtColor_RGBA2RGB_def)
  have "length ?tex = 3 * ?N"
    using frame by (simp add: length_rgba2rgb)
  then have tex: "?N * 3 \<le> length ?tex" by simp
  have room': "3 * ?N \<le> length buf" using room .
  have "int (3 * ?N) = 3 * nPixels s" using N by simp
  with fits have fits': "int (3 * ?N) \<le> INT_MAX + 1" by simp
  from pixel_loop_spec [where h = h and a = "input_data s" and p = 0 and K = 3 and N = ?N,
      OF buf room' tex fits']
  obtain buf' where
    run: "pixel_loop (int ?N) (int 3) (input_data s) ?tex 0 h = Some (h(input_data s \<mapsto> buf'))"
    and len: "length buf' = length buf"
    and vals: "\<forall>i < length buf. buf' ! i =
                 (if i < 3 * ?N \<and> 0 \<le> i mod ?N
                  then uchar_div_255 (?tex ! (i mod ?N * 3 + i div ?N)) else buf ! i)"
    by auto
  have "preprocess s h inputData = Returned (h(input_data s \<mapsto> buf'))"
    using cvt run N nch by (simp add: preprocess_def)
  with cvt len vals show ?thesis by (intro exI [of _ buf']) simp
qed

text \<open>
  C3. For globals with positive cached dimensions, \<open>nPixels = input_w * input_h\<close> and
  three channels, a frame of at least \<open>4 * nPixels\<close> bytes and input storage of at least
  \<open>3 * nPixels\<close> floats, preprocessing returns, and \<open>PerformInference\<close> runs the forward
  pass on the memory it leaves: for every pixel \<open>p < nPixels\<close> and channel \<open>c < 3\<close> the
  storage holds at \<open>c * nPixels + p\<close> the binary32 quotient of byte \<open>p * 3 + c\<close> of the
  RGB image by 255, a value in \<open>[0, 1]\<close> within \<open>1 / 2 ^ 25\<close> of the exact quotient; that byte
  is byte \<open>p * 4 + c\<close> of the frame; storage beyond \<open>3 * nPixels\<close> is untouched; and a
  frame whose colour bytes all equal \<open>v\<close> fills the tensor with the binary32 value of
  \<open>v / 255\<close>.
\<close>

theorem preprocess_planar_normalized:
  assumes w: "1 \<le> input_w s" and ht: "1 \<le> input_h s"
    and npx: "nPixels s = input_w s * input_h s" and nch: "num_channels s = 3"
    and frame: "4 * nat (nPixels s) \<le> length inputData"
    and buf: "h (input_data s) = Some buf" and room: "3 * nat (nPixels s) \<le> length buf"
    and fits: "3 * nPixels s \<le> INT_MAX + 1"
  shows "\<exists>source_rgb buf'.
           cvtColor_RGBA2RGB (input_h s) (input_w s) inputData = Returned source_rgb
         \<and> preprocess s h inputData = Returned (h(input_data s \<mapsto> buf'))
         \<and> (\<forall>rt. PerformInference rt s h inputData =
               (case forward_and_argmax rt s (h(input_data s \<mapsto> buf')) of
                  None \<Rightarrow> Undefined
                | Some (Inl e, h2) \<Rightarrow> Returned (- 2, s, h2)
                | Some (Inr idx, h2) \<Rightarrow> Returned (idx, s, h2)))
         \<and> length buf' = length buf
         \<and> (\<forall>p c. p < nat (nPixels s) \<and> c < 3 \<longrightarrow>
               buf' ! (c * nat (nPixels s) + p) = uchar_div_255 (source_rgb ! (p * 3 + c))
             \<and> source_rgb ! (p * 3 + c) = inputData ! (p * 4 + c)
             \<and> (\<exists>q. buf' ! (c * nat (nPixels s) + p) = Finite q \<and> 0 \<le> q \<and> q \<le> 1
                   \<and> \<bar>q - of_nat (unat (source_rgb ! (p * 3 + c))) / 255\<bar> \<le> 1 / 2 ^ 25))
         \<and> (\<forall>i. 3 * nat (nPixels s) \<le> i \<and> i < length buf \<longrightarrow> buf' ! i = buf ! i)
         \<and> (\<forall>v. (\<forall>p c. p < nat (nPixels s) \<and> c < 3 \<longrightarrow> inputData ! (p * 4 + c) = v) \<longrightarrow>
               (\<forall>i < 3 * nat (nPixels s). buf' ! i = uchar_div_255 v))"
proof -
  let ?N = "nat (nPixels s)"
  let ?tex = "rgba2rgb (take (4 * ?N) inputData)"
  from preprocess_spec [where h = h and s = s, OF assms] obtain buf' where
    cvt: "cvtColor_RGBA2RGB (input_h s) (input_w s) inputData = Returned ?tex"
    and pre: "preprocess s h inputData = Returned (h(input_data s \<mapsto> buf'))"
    and len: "length buf' = length buf"
    and vals: "\<forall>i < length buf. buf' ! i =
                 (if i < 3 * ?N then uchar_div_255 (?tex ! (i mod ?N * 3 + i div ?N))
                  else buf ! i)"
    by blast
  have run: "PerformInference rt s h inputData =
               (case forward_and_argmax rt s (h(input_data s \<mapsto> buf')) of
                  None \<Rightarrow> Undefined
                | Some (Inl e, h2) \<Rightarrow> Returned (- 2, s, h2)
                | Some (Inr idx, h2) \<Rightarrow> Returned (idx, s, h2))" for rt
    using pre by (simp add: PerformInference_def)
  have src: "?tex ! (p * 3 + c) = inputData ! (p * 4 + c)" if "p < ?N" "c < 3" for p c
  proof -
    have "length (take (4 * ?N) inputData) = 4 * ?N" using frame by simp
    then have "p < length (take (4 * ?N) inputData) div 4" using that by simp
    from nth_rgba2rgb [OF this that(2)]
    have "?tex ! (p * 3 + c) = take (4 * ?N) inputData ! (p * 4 + c)" .
    moreover have "p * 4 + c < 4 * ?N" using that by simp
    ultimately show ?thesis by simp
  qed
  have planar: "buf' ! (c * ?N + p) = uchar_div_255 (?tex ! (p * 3 + c))"
    if "p < ?N" "c < 3" for p c
  proof -
    have "Suc c * ?N \<le> 3 * ?N" using that by (intro mult_le_mono1) simp
    moreover have "Suc c * ?N = c * ?N + ?N" by simp
    ultimately have lt: "c * ?N + p < 3 * ?N" using that by linarith
    with room have "c * ?N + p < length buf" by simp
    with vals lt that show ?thesis by simp
  qed
  have pix: "buf' ! (c * ?N + p) = uchar_div_255 (?tex ! (p * 3 + c))
             \<and> ?tex ! (p * 3 + c) = inputData ! (p * 4 + c)
             \<and> (\<exists>q. buf' ! (c * ?N + p) = Finite q \<and> 0 \<le> q \<and> q \<le> 1
                   \<and> \<bar>q - of_nat (unat (?tex ! (p * 3 + c))) / 255\<bar> \<le> 1 / 2 ^ 25)"
    if "p < ?N \<and> c < 3" for p c
    using that planar [of p c] src [of p c] uchar_div_255_bounds [of "?tex ! (p * 3 + c)"]
    by simp
  have rest: "buf' ! i = buf ! i" if "3 * ?N \<le> i \<and> i < length buf" for i
    using that vals by simp
  have solid: "buf' ! i = uchar_div_255 v"
    if all: "\<forall>p c. p < ?N \<and> c < 3 \<longrightarrow> inputData ! (p * 4 + c) = v" and i: "i < 3 * ?N" for v i
  proof -
    from i have Npos: "0 < ?N" by (cases "?N = 0") simp_all
    then have p: "i mod ?N < ?N" by simp
    from i Npos have c: "i div ?N < 3" by (simp add: div_less_iff_mult)
    have "i = i div ?N * ?N + i mod ?N" by simp
    with planar [OF p c] have "buf' ! i = uchar_div_255 (?tex ! (i mod ?N * 3 + i div ?N))"
      by simp
    with src [OF p c] all p c show ?thesis by simp
  qed
  show ?thesis
    apply (rule exI [of _ ?tex], rule exI [of _ buf'])
    apply (intro conjI)
          apply (rule cvt)
         apply (rule pre)
        apply (rule allI, rule run)
       apply (rule len)
    using pix apply blast
    using rest apply blast
    using solid apply blast
    done
qed

theorem preprocess_planar_normalized_witness:
  "(\<exists>buf'. preprocess (loaded_globals 2) stub_heap stub_frame = Returned (stub_heap(100 \<mapsto> buf'))
      \<and> length buf' = 6
      \<and> buf' ! 0 = uchar_div_255 255 \<and> buf' ! 5 = uchar_div_255 3)
   \<and> (\<exists>buf'. preprocess (loaded_globals 2) stub_heap solid_frame = Returned (stub_heap(100 \<mapsto> buf'))
      \<and> (\<forall>i < 6. buf' ! i = uchar_div_255 7))"
proof -
  let ?s = "loaded_globals 2"
  have w: "1 \<le> input_w ?s" and ht: "1 \<le> input_h ?s"
    and npx: "nPixels ?s = input_w ?s * input_h ?s" and nch: "num_channels ?s = 3"
    and frame: "4 * nat (nPixels ?s) \<le> length stub_frame"
    and solid: "4 * nat (nPixels ?s) \<le> length solid_frame"
    and buf: "stub_heap (input_data ?s) = Some (replicate 6 (Finite 0))"
    and room: "3 * nat (nPixels ?s) \<le> length (replicate 6 (Finite 0))"
    and fits: "3 * nPixels ?s \<le> INT_MAX + 1"
    by (simp_all add: loaded_globals_def stub_frame_def solid_frame_def stub_heap_def INT_MAX_def)
  have N: "nat (nPixels ?s) = 2" and a: "input_data ?s = 100"
    by (simp_all add: loaded_globals_def)
  from preprocess_planar_normalized [where h = stub_heap and s = "loaded_globals 2",
      OF w ht npx nch frame buf room fits]
  obtain source_rgb buf' where
    pre: "preprocess ?s stub_heap stub_frame = Returned (stub_heap(input_data ?s \<mapsto> buf'))"
    and len: "length buf' = length (replicate 6 (Finite 0 :: f32))"
    and pix: "\<forall>p c. p < nat (nPixels ?s) \<and> c < 3 \<longrightarrow>
               buf' ! (c * nat (nPixels ?s) + p) = uchar_div_255 (source_rgb ! (p * 3 + c))
             \<and> source_rgb ! (p * 3 + c) = stub_frame ! (p * 4 + c)"
    by blast
  have "buf' ! 0 = uchar_div_255 (stub_frame ! 0)"
    using pix [rule_format, of 0 0] N by simp
  moreover have "buf' ! 5 = uchar_div_255 (stub_frame ! 6)"
    using pix [rule_format, of 1 2] N by simp
  ultimately have "buf' ! 0 = uchar_div_255 255 \<and> buf' ! 5 = uchar_div_255 3"
    by (simp add: stub_frame_def)
  with pre len a have first: "\<exists>buf'.
      preprocess ?s stub_heap stub_frame = Returned (stub_heap(100 \<mapsto> buf'))
      \<and> length buf' = 6 \<and> buf' ! 0 = uchar_div_255 255 \<and> buf' ! 5 = uchar_div_255 3"
    by auto
  from preprocess_planar_normalized [where h = stub_heap and s = "loaded_globals 2",
      OF w ht npx nch solid buf room fits]
  obtain buf'' where
    pre': "preprocess ?s stub_heap solid_frame = Returned (stub_heap(input_data ?s \<mapsto> buf''))"
    and all: "\<forall>v. (\<forall>p c. p < nat (nPixels ?s) \<and> c < 3 \<longrightarrow> solid_frame ! (p * 4 + c) = v) \<longrightarrow>
               (\<forall>i < 3 * nat (nPixels ?s). buf'' ! i = uchar_div_255 v)"
    by blast
  have "solid_frame ! (p * 4 + c) = 7" if "p < 2 \<and> c < 3" for p c
  proof -
    from that have "p \<in> {0, 1}" and "c \<in> {0, 1, 2}" by auto
    then show ?thesis by (auto simp: solid_frame_def)
  qed
  with all N have "\<forall>i < 6. buf'' ! i = uchar_div_255 7" by simp
  with pre' a first show ?thesis by auto
qed

lemma rgba2rgb_short: "length ys < 4 \<Longrightarrow> rgba2rgb ys = []"
  by (cases ys rule: rgba2rgb.cases) simp_all

lemma rgba2rgb_alpha:
  "length xs = length ys \<Longrightarrow> (\<forall>i < length xs. i mod 4 \<noteq> 3 \<longrightarrow> xs ! i = ys ! i)
     \<Longrightarrow> rgba2rgb xs = rgba2rgb ys"
proof (induction xs arbitrary: ys rule: rgba2rgb.induct)
  case (1 r g b a rest)
  from 1(2) obtain r' g' b' a' rest' where ys: "ys = r' # g' # b' # a' # rest'"
    and len: "length rest = length rest'"
    by (cases ys; cases "tl ys"; cases "tl (tl ys)"; cases "tl (tl (tl ys))") auto
  have hd: "r = r'" "g = g'" "b = b'"
    using 1(3) [rule_format, of 0] 1(3) [rule_format, of 1] 1(3) [rule_format, of 2]
    by (simp_all add: ys)
  have "rest ! i = rest' ! i" if "i < length rest" "i mod 4 \<noteq> 3" for i
  proof -
    have "(i + 4) mod 4 \<noteq> 3" using that by simp
    moreover have "i + 4 < length (r # g # b # a # rest)" using that by simp
    ultimately have "(r # g # b # a # rest) ! (i + 4) = ys ! (i + 4)" using 1(3) by blast
    then show ?thesis by (simp add: ys)
  qed
  with len have "rgba2rgb rest = rgba2rgb rest'" by (intro 1(1)) auto
  with hd show ?case by (simp add: ys)
qed (simp_all add: rgba2rgb_short)

lemma cvtColor_alpha:
  assumes "length xs = length ys" "\<forall>i < length xs. i mod 4 \<noteq> 3 \<longrightarrow> xs ! i = ys ! i"
  shows "cvtColor_RGBA2RGB rows cols xs = cvtColor_RGBA2RGB rows cols ys"
proof -
  have "rgba2rgb (take n xs) = rgba2rgb (take n ys)" for n
    using assms by (intro rgba2rgb_alpha) auto
  with assms(1) show ?thesis by (simp add: cvtColor_RGBA2RGB_def)
qed

text \<open>
  C9. Two frames of the same length that agree on every byte except the fourth of each
  pixel give the same preprocessing result and the same outcome of \<open>PerformInference\<close>
  (class index, globals and memory) for the same globals, memory and runtime answers.
\<close>

theorem PerformInference_ignores_alpha:
  assumes "length frame1 = length frame2"
    and "\<forall>i < length frame1. i mod 4 \<noteq> 3 \<longrightarrow> frame1 ! i = frame2 ! i"
  shows "PerformInference rt s h frame1 = PerformInference rt s h frame2
       \<and> preprocess s h frame1 = preprocess s h frame2"
proof -
  have "preprocess s h frame1 = preprocess s h frame2"
    using cvtColor_alpha [OF assms] by (simp add: preprocess_def)
  then show ?thesis by (simp add: PerformInference_def)
qed

lemma stub_inference:
  "returned_value (PerformInference stub_core (loaded_globals m) stub_heap stub_frame) = Some 0"
  by (simp add: PerformInference_def forward_and_argmax_def read_floats_def max_element_def
      stub_core_def preprocess_def cvtColor_RGBA2RGB_def loaded_globals_def stub_heap_def
      stub_frame_def pixel_loop.simps channel_loop.simps store_def INT_MAX_def Let_def)

theorem PerformInference_ignores_alpha_witness:
  "PerformInference stub_core (loaded_globals 2) stub_heap [255, 0, 128, 77, 1, 2, 3, 200]
     = PerformInference stub_core (loaded_globals 2) stub_heap stub_frame
   \<and> returned_value (PerformInference stub_core (loaded_globals 2) stub_heap stub_frame) = Some 0"
proof -
  have len: "length [255, 0, 128, 77, 1, 2, 3, 200 :: uchar] = length stub_frame"
    by (simp add: stub_frame_def)
  have rgb: "\<forall>i < length [255, 0, 128, 77, 1, 2, 3, 200 :: uchar]. i mod 4 \<noteq> 3 \<longrightarrow>
               [255, 0, 128, 77, 1, 2, 3, 200 :: uchar] ! i = stub_frame ! i"
  proof (intro allI impI)
    fix i :: nat
    assume "i < length [255, 0, 128, 77, 1, 2, 3, 200 :: uchar]" and m: "i mod 4 \<noteq> 3"
    then have "i \<in> {0, 1, 2, 3, 4, 5, 6, 7}" by auto
    with m show "[255, 0, 128, 77, 1, 2, 3, 200 :: uchar] ! i = stub_frame ! i"
      by (auto simp: stub_frame_def)
  qed
  from PerformInference_ignores_alpha [OF len rgb, of stub_core "loaded_globals 2" stub_heap]
    stub_inference [of 2]
  show ?thesis by simp
qed

section \<open>The inference driver\<close>

text \<open>
  C4. When no step of the inference throws, the model has at least one class and the
  storage at the output tensor's address holds at least \<open>num_classes\<close> floats, the call
  reads the first \<open>num_classes\<close> of those floats and returns the position \<open>k\<close> that
  \<open>max_element\<close> gives over them: a position below \<open>num_classes\<close> at which no stored logit
  is greater; when none of them is NaN every logit before \<open>k\<close> is strictly smaller, so
  ties go to the lowest index. The logits \<open>[0.5, 0.5, 0.5]\<close> give 0.
\<close>

theorem PerformInference_argmax:
  assumes pre: "preprocess s h inputData = Returned h1"
    and req: "infer_request s = Some r" and inf: "infer rt r h1 = (None, h2)"
    and out: "get_output_tensor rt r h2 = Inr output_tensor"
    and dat: "data_float output_tensor = Inr out_data"
    and stored: "h2 out_data = Some output"
    and room: "nat (num_classes s) \<le> length output"
    and C: "1 \<le> num_classes s"
  shows "\<exists>k. PerformInference rt s h inputData = Returned (int k, s, h2)
           \<and> read_floats h2 out_data (num_classes s) = Some (take (nat (num_classes s)) output)
           \<and> k = max_element (take (nat (num_classes s)) output)
           \<and> k < nat (num_classes s)
           \<and> (\<forall>j < nat (num_classes s). \<not> f32_less (output ! k) (output ! j))
           \<and> ((\<forall>j < nat (num_classes s). output ! j \<noteq> NaN) \<longrightarrow>
                 (\<forall>j < k. f32_less (output ! j) (output ! k)))
           \<and> max_element [Finite (1 / 2), Finite (1 / 2), Finite (1 / 2)] = 0"
proof -
  let ?C = "nat (num_classes s)"
  let ?logits = "take ?C output"
  let ?k = "max_element ?logits"
  have rd: "read_floats h2 out_data (num_classes s) = Some ?logits"
    using stored room C by (simp add: read_floats_def)
  have run: "PerformInference rt s h inputData = Returned (int ?k, s, h2)"
    using pre req inf out dat rd
    by (simp add: PerformInference_def forward_and_argmax_def)
  have len: "length ?logits = ?C" using room by simp
  with C have ne: "?logits \<noteq> []" by auto
  have nth: "?logits ! j = output ! j" if "j < ?C" for j
    using that by simp
  from max_element_spec [OF ne]
  have k0: "?k < length ?logits"
    and top0: "\<forall>j < length ?logits. \<not> f32_less (?logits ! ?k) (?logits ! j)"
    and early: "NaN \<notin> set ?logits \<longrightarrow> (\<forall>j < ?k. f32_less (?logits ! j) (?logits ! ?k))"
    by blast+
  from k0 have k: "?k < ?C" by (simp only: len)
  from top0 have top: "\<forall>j < ?C. \<not> f32_less (?logits ! ?k) (?logits ! j)"
    by (simp only: len)
  have top': "\<forall>j < ?C. \<not> f32_less (output ! ?k) (output ! j)"
  proof (intro allI impI)
    fix j assume j: "j < ?C"
    with top have "\<not> f32_less (?logits ! ?k) (?logits ! j)" by blast
    then show "\<not> f32_less (output ! ?k) (output ! j)"
      unfolding nth [OF k] nth [OF j] .
  qed
  have early': "\<forall>j < ?k. f32_less (output ! j) (output ! ?k)"
    if nan: "\<forall>j < ?C. output ! j \<noteq> NaN"
  proof -
    have "NaN \<notin> set ?logits"
    proof
      assume "NaN \<in> set ?logits"
      then obtain j where "j < length ?logits" "?logits ! j = NaN"
        by (auto simp: in_set_conv_nth)
      with len nth nan show False by (metis)
    qed
    with early have e: "\<forall>j < ?k. f32_less (?logits ! j) (?logits ! ?k)" by blast
    show ?thesis
    proof (intro allI impI)
      fix j assume j: "j < ?k"
      with k have jC: "j < ?C" by linarith
      from e j have "f32_less (?logits ! j) (?logits ! ?k)" by blast
      then show "f32_less (output ! j) (output ! ?k)"
        unfolding nth [OF k] nth [OF jC] .
    qed
  qed
  show ?thesis
    apply (rule exI [of _ ?k])
    apply (intro conjI)
          apply (rule run)
         apply (rule rd)
        apply (rule refl)
       apply (rule k)
      apply (rule top')
    using early' apply blast
    apply (rule max_element_tie)
    done
qed

lemma stub_preprocess_loaded:
  "\<exists>h1. preprocess (loaded_globals m) stub_heap stub_frame = Returned h1"
  by (simp add: preprocess_def cvtColor_RGBA2RGB_def loaded_globals_def stub_heap_def
      stub_frame_def pixel_loop.simps channel_loop.simps store_def INT_MAX_def Let_def)

lemma stub_forward:
  "infer stub_core 2 h1 = (None, h1(200 \<mapsto> [Finite (1 / 2), Finite (1 / 2), Finite (1 / 2)]))"
  "get_output_tensor stub_core 2 h2 = Inr \<lparr>get_shape = [1, 3], data_float = Inr 200\<rparr>"
  by (simp_all add: stub_core_def)

lemma peaked_forward:
  "infer peaked_core 2 h1 = (None, h1(200 \<mapsto> [Finite (1 / 4), Finite (3 / 4), Finite (1 / 2)]))"
  "get_output_tensor peaked_core 2 h2 = Inr \<lparr>get_shape = [1, 3], data_float = Inr 200\<rparr>"
  by (simp_all add: peaked_core_def stub_core_def)

theorem PerformInference_argmax_witness:
  "returned_value (PerformInference stub_core (loaded_globals 2) stub_heap stub_frame) = Some 0
   \<and> returned_value (PerformInference peaked_core (loaded_globals 2) stub_heap stub_frame) = Some 1"
proof -
  let ?tie = "[Finite (1 / 2), Finite (1 / 2), Finite (1 / 2)]"
  let ?peak = "[Finite (1 / 4), Finite (3 / 4), Finite (1 / 2)]"
  obtain h1 where pre: "preprocess (loaded_globals 2) stub_heap stub_frame = Returned h1"
    using stub_preprocess_loaded by blast
  have req: "infer_request (loaded_globals 2) = Some 2"
    and C: "1 \<le> num_classes (loaded_globals 2)"
    and n: "nat (num_classes (loaded_globals 2)) = 3"
    by (simp_all add: loaded_globals_def)
  have dat: "data_float \<lparr>get_shape = [1, 3], data_float = Inr 200\<rparr> = Inr 200" by simp
  have tie: "(h1(200 \<mapsto> ?tie)) 200 = Some ?tie" and peak: "(h1(200 \<mapsto> ?peak)) 200 = Some ?peak"
    by simp_all
  have room: "nat (num_classes (loaded_globals 2)) \<le> length ?tie"
    "nat (num_classes (loaded_globals 2)) \<le> length ?peak"
    by (simp_all add: n)
  from PerformInference_argmax [OF pre req stub_forward(1) stub_forward(2) dat tie room(1) C]
  obtain k where "PerformInference stub_core (loaded_globals 2) stub_heap stub_frame
          = Returned (int k, loaded_globals 2, h1(200 \<mapsto> ?tie))"
    and "k = max_element (take (nat (num_classes (loaded_globals 2))) ?tie)"
    by blast
  then have a: "returned_value (PerformInference stub_core (loaded_globals 2) stub_heap stub_frame)
                  = Some 0"
    by (simp add: n max_element_def)
  from PerformInference_argmax [OF pre req peaked_forward(1) peaked_forward(2) dat peak room(2) C]
  obtain k' where "PerformInference peaked_core (loaded_globals 2) stub_heap stub_frame
          = Returned (int k', loaded_globals 2, h1(200 \<mapsto> ?peak))"
    and "k' = max_element (take (nat (num_classes (loaded_globals 2))) ?peak)"
    by blast
  then have b: "returned_value (PerformInference peaked_core (loaded_globals 2) stub_heap stub_frame)
                  = Some 1"
    by (simp add: n max_element_def)
  from a b show ?thesis by simp
qed





lemma PerformInference_Undefined:
  assumes "PerformInference rt s h inputData = Undefined"
  shows "preprocess s h inputData = Undefined
       \<or> (\<exists>h1 r h2 output_tensor out_data.
             preprocess s h inputData = Returned h1 \<and> infer_request s = Some r
           \<and> infer rt r h1 = (None, h2) \<and> get_output_tensor rt r h2 = Inr output_tensor
           \<and> data_float output_tensor = Inr out_data
           \<and> read_floats h2 out_data (num_classes s) = None)"
  using assms
  by (auto simp: PerformInference_def forward_and_argmax_def
      split: outcome.splits option.splits sum.splits prod.splits)

lemma LoadModel_binds_request:
  assumes "LoadModel rt s modelPath index inputDims = Returned (st, s')" and "st = 0 \<or> st = 2"
  shows "\<exists>r. infer_request s' = Some r"
proof -
  from LoadModel_Returned_cases [OF assms(1)] assms(2)
  obtain m where "compile_and_bind rt (s\<lparr>model := Some m\<rparr>) m index = Returned s'"
    by auto
  from compile_and_bind_Returned [OF this] show ?thesis by auto
qed

text \<open>
  C2. After a \<open>LoadModel\<close> that returned 0 or 2 and left \<open>num_classes \<ge> 1\<close>, an infer
  request is bound, and every \<open>PerformInference\<close> on those globals, whatever the runtime
  answers, the memory and the frame, returns \<open>-2\<close> or an index in \<open>[0, num_classes)\<close>
  and leaves the globals as they were, so the same holds for the call after it. An
  exception from preprocessing, from the forward pass, from fetching the output tensor
  or from its data pointer makes the call return \<open>-2\<close>. The call is undefined only when
  preprocessing is (frame or input storage too small for the cached dimensions) or the
  output storage holds fewer than \<open>num_classes\<close> floats.
\<close>

theorem PerformInference_result_range:
  assumes load: "LoadModel rt0 s0 modelPath index inputDims = Returned (st, s)"
    and st: "st = 0 \<or> st = 2" and C: "1 \<le> num_classes s"
  shows "(\<exists>r. infer_request s = Some r)
       \<and> (\<forall>rt h inputData.
            PerformInference rt s h inputData = Undefined
          \<or> (\<exists>v h'. PerformInference rt s h inputData = Returned (v, s, h')
                \<and> (v = - 2 \<or> 0 \<le> v \<and> v < num_classes s)))
       \<and> (\<forall>rt h inputData e. preprocess s h inputData = Propagated e \<longrightarrow>
            PerformInference rt s h inputData = Returned (- 2, s, h))
       \<and> (\<forall>rt h inputData h1 r e h2.
            preprocess s h inputData = Returned h1 \<and> infer_request s = Some r
            \<and> infer rt r h1 = (Some e, h2) \<longrightarrow>
            PerformInference rt s h inputData = Returned (- 2, s, h2))
       \<and> (\<forall>rt h inputData h1 r e h2.
            preprocess s h inputData = Returned h1 \<and> infer_request s = Some r
            \<and> infer rt r h1 = (None, h2) \<and> get_output_tensor rt r h2 = Inl e \<longrightarrow>
            PerformInference rt s h inputData = Returned (- 2, s, h2))
       \<and> (\<forall>rt h inputData h1 r e h2 output_tensor.
            preprocess s h inputData = Returned h1 \<and> infer_request s = Some r
            \<and> infer rt r h1 = (None, h2) \<and> get_output_tensor rt r h2 = Inr output_tensor
            \<and> data_float output_tensor = Inl e \<longrightarrow>
            PerformInference rt s h inputData = Returned (- 2, s, h2))
       \<and> (\<forall>rt h inputData. PerformInference rt s h inputData = Undefined \<longrightarrow>
            preprocess s h inputData = Undefined
          \<or> (\<exists>h1 r h2 output_tensor out_data.
                preprocess s h inputData = Returned h1 \<and> infer_request s = Some r
              \<and> infer rt r h1 = (None, h2) \<and> get_output_tensor rt r h2 = Inr output_tensor
              \<and> data_float output_tensor = Inr out_data
              \<and> read_floats h2 out_data (num_classes s) = None))"
proof -
  from LoadModel_binds_request [OF load st]
  have req: "\<exists>r. infer_request s = Some r" .
  have range: "PerformInference rt s h inputData = Undefined
          \<or> (\<exists>v h'. PerformInference rt s h inputData = Returned (v, s, h')
                \<and> (v = - 2 \<or> 0 \<le> v \<and> v < num_classes s))" for rt h inputData
    using PerformInference_outcome [of rt s h inputData] C by auto
  have pre: "PerformInference rt s h inputData = Returned (- 2, s, h)"
    if "preprocess s h inputData = Propagated e" for rt h inputData e
    using that by (simp add: PerformInference_def)
  have fwd: "PerformInference rt s h inputData = Returned (- 2, s, h2)"
    if "preprocess s h inputData = Returned h1 \<and> infer_request s = Some r
            \<and> infer rt r h1 = (Some e, h2)" for rt h inputData h1 r e h2
    using that by (simp add: PerformInference_def forward_and_argmax_def)
  have out: "PerformInference rt s h inputData = Returned (- 2, s, h2)"
    if "preprocess s h inputData = Returned h1 \<and> infer_request s = Some r
            \<and> infer rt r h1 = (None, h2) \<and> get_output_tensor rt r h2 = Inl e"
    for rt h inputData h1 r e h2
    using that by (simp add: PerformInference_def forward_and_argmax_def)
  have dat: "PerformInference rt s h inputData = Returned (- 2, s, h2)"
    if "preprocess s h inputData = Returned h1 \<and> infer_request s = Some r
            \<and> infer rt r h1 = (None, h2) \<and> get_output_tensor rt r h2 = Inr output_tensor
            \<and> data_float output_tensor = Inl e"
    for rt h inputData h1 r e h2 output_tensor
    using that by (simp add: PerformInference_def forward_and_argmax_def)
  show ?thesis
    apply (intro conjI)
          apply (rule req)
    using range apply blast
    using pre apply blast
    using fwd apply blast
    using out apply blast
    using dat apply blast
    using PerformInference_Undefined apply blast
    done
qed

theorem PerformInference_result_range_witness:
  "(\<exists>v h'. PerformInference stub_core (loaded_globals 2) stub_heap stub_frame
              = Returned (v, loaded_globals 2, h')
         \<and> (v = - 2 \<or> 0 \<le> v \<and> v < 3))
   \<and> (\<exists>h'. PerformInference infer_failing_core (loaded_globals 2) stub_heap stub_frame
              = Returned (- 2, loaded_globals 2, h'))"
proof -
  have load: "LoadModel stub_core enumerated_globals ''model.xml'' 0 (2, 1)
                = Returned (0, loaded_globals 2)"
    by (simp add: LoadModel_def compile_and_bind_def stub_core_def enumerated_globals_def
      initial_globals_def loaded_globals_def int_of_size_t_values fits_int_def INT_MAX_def)
  have st: "(0::int) = 0 \<or> (0::int) = 2" by simp
  have C: "1 \<le> num_classes (loaded_globals 2)" by (simp add: loaded_globals_def)
  note facts = PerformInference_result_range [OF load st C]
  from facts [THEN conjunct2, THEN conjunct1, rule_format, of stub_core stub_heap stub_frame]
  have "PerformInference stub_core (loaded_globals 2) stub_heap stub_frame = Undefined
          \<or> (\<exists>v h'. PerformInference stub_core (loaded_globals 2) stub_heap stub_frame
                 = Returned (v, loaded_globals 2, h')
                \<and> (v = - 2 \<or> 0 \<le> v \<and> v < num_classes (loaded_globals 2)))" .
  moreover have "PerformInference stub_core (loaded_globals 2) stub_heap stub_frame \<noteq> Undefined"
    using stub_inference [of 2] by auto
  moreover have "num_classes (loaded_globals 2) = 3" by (simp add: loaded_globals_def)
  ultimately have a: "\<exists>v h'. PerformInference stub_core (loaded_globals 2) stub_heap stub_frame
              = Returned (v, loaded_globals 2, h')
         \<and> (v = - 2 \<or> 0 \<le> v \<and> v < 3)"
    by auto
  obtain h1 where pre: "preprocess (loaded_globals 2) stub_heap stub_frame = Returned h1"
    using stub_preprocess_loaded by blast
  have "infer_request (loaded_globals 2) = Some 2"
    and "infer infer_failing_core 2 h1 = (Some (Exception ''infer''), h1)"
    by (simp_all add: loaded_globals_def infer_failing_core_def)
  with pre facts [THEN conjunct2, THEN conjunct2, THEN conjunct2, THEN conjunct1, rule_format,
      of stub_heap stub_frame h1 2 infer_failing_core "Exception ''infer''" h1]
  have "PerformInference infer_failing_core (loaded_globals 2) stub_heap stub_frame
              = Returned (- 2, loaded_globals 2, h1)"
    by simp
  with a show ?thesis by blast
qed

section \<open>Exceptions at the export surface\<close>






end
